theory Spec2Isabelle
  imports Main
begin

section \<open>Go library functions used by the folder resource\<close>

text \<open>
  Go strings are byte sequences; they are modelled as \<open>string\<close> (a list of characters).
  The resource runs on a platform whose path separator is the slash, so
  \<open>filepath.ToSlash\<close> is the identity and \<open>path\<close> and \<open>filepath\<close> agree.
\<close>

datatype panic = NilInterfaceConversion | InterfaceConversion | NilDereference | SliceBounds

datatype error = Error string | Panic panic

text \<open>\<open>strings.TrimRight(s, cutset)\<close>: drop every trailing byte that occurs in the cutset.\<close>

definition strings_TrimRight :: "string \<Rightarrow> string \<Rightarrow> string" where
  "strings_TrimRight s cutset = rev (dropWhile (\<lambda>c. c \<in> set cutset) (rev s))"

text \<open>\<open>strings.LastIndex(s, sep)\<close> for a one-byte separator: the index of the last
  occurrence, or \<open>-1\<close>.\<close>

definition strings_LastIndex :: "string \<Rightarrow> char \<Rightarrow> int" where
  "strings_LastIndex s c =
     (if c \<in> set s then int (length s) - 1 - int (length (takeWhile (\<lambda>x. x \<noteq> c) (rev s)))
      else - 1)"

text \<open>The slice expression \<open>s[:i]\<close>, which panics when \<open>i\<close> is out of range.\<close>

definition slice_to :: "string \<Rightarrow> int \<Rightarrow> error + string" where
  "slice_to s i =
     (if 0 \<le> i \<and> i \<le> int (length s) then Inr (take (nat i) s) else Inl (Panic SliceBounds))"

text \<open>\<open>filepath.Split\<close>: cut right after the last separator.\<close>

definition filepath_Split :: "string \<Rightarrow> string \<times> string" where
  "filepath_Split p =
     (let file = rev (takeWhile (\<lambda>x. x \<noteq> CHR ''/'') (rev p))
      in (take (length p - length file) p, file))"

text \<open>The components of a path between separators (empty components included), and
  \<open>strings.Join\<close>.\<close>

fun split_on :: "char \<Rightarrow> string \<Rightarrow> string list" where
  "split_on c [] = [[]]"
| "split_on c (x # xs) =
     (if x = c then [] # split_on c xs
      else (x # hd (split_on c xs)) # tl (split_on c xs))"

fun strings_Join :: "string list \<Rightarrow> string \<Rightarrow> string" where
  "strings_Join [] sep = []"
| "strings_Join [x] sep = x"
| "strings_Join (x # y # ys) sep = x @ sep @ strings_Join (y # ys) sep"

text \<open>
  \<open>path.Clean\<close> works component by component: empty components and \<open>.\<close> are dropped;
  \<open>..\<close> removes the preceding component when there is one that is not itself \<open>..\<close>,
  is dropped at the root of a rooted path, and is kept otherwise; the result of an empty
  output is \<open>.\<close>.
\<close>

definition clean_component :: "bool \<Rightarrow> string list \<Rightarrow> string \<Rightarrow> string list" where
  "clean_component rooted out c =
     (if c = [] \<or> c = ''.'' then out
      else if c = ''..'' then
        (if out \<noteq> [] \<and> last out \<noteq> ''..'' then butlast out
         else if rooted then out
         else out @ [''..''])
      else out @ [c])"

definition path_Clean :: "string \<Rightarrow> string" where
  "path_Clean p =
     (if p = [] then ''.''
      else
        let rooted = (hd p = CHR ''/'');
            out = foldl (clean_component rooted) [] (split_on CHR ''/'' p);
            r = (if rooted then ''/'' else []) @ strings_Join out ''/''
        in if r = [] then ''.'' else r)"

text \<open>\<open>filepath.Join\<close>: leading empty elements are skipped, the rest is joined with
  the separator and cleaned; no non-empty element gives the empty string.\<close>

definition filepath_Join :: "string list \<Rightarrow> string" where
  "filepath_Join elem =
     (case dropWhile (\<lambda>e. e = []) elem of
        [] \<Rightarrow> []
      | e # es \<Rightarrow> path_Clean (strings_Join (e # es) ''/''))"

definition filepath_ToSlash :: "string \<Rightarrow> string" where
  "filepath_ToSlash p = p"

definition path_Dir :: "string \<Rightarrow> string" where
  "path_Dir p = path_Clean (fst (filepath_Split p))"

section \<open>The inventory service\<close>

text \<open>
  The resource talks to the vSphere inventory through the govmomi client. The inventory is a
  tree of named nodes; a managed object is identified here by the list of names on the way
  from the root to it. The service state records the nodes, the calls that the service
  refuses (with the message of the failure), and the calls received so far, in order.
\<close>

datatype kind = Datacenter | Folder | Other

type_synonym ref = "string list"

datatype call =
    DatacenterCall string
  | FindByInventoryPathCall string
  | CreateFolderCall ref string
  | ChildrenCall ref
  | DestroyCall ref
  | WaitCall ref

record vsphere =
  nodes :: "(ref \<times> kind) list"
  faults :: "call \<Rightarrow> string option"
  calls :: "call list"

datatype reference = Reference ref kind

record object_Datacenter =
  dc_ref :: ref
  dc_InventoryPath :: string

record object_Folder =
  fo_ref :: ref
  fo_InventoryPath :: string

datatype task = Task ref "string option"

definition received :: "vsphere \<Rightarrow> call \<Rightarrow> vsphere" where
  "received s c = s\<lparr>calls := calls s @ [c]\<rparr>"

text \<open>An inventory path names the components from the root; a leading, trailing or
  doubled separator contributes no component.\<close>

definition inventory_components :: "string \<Rightarrow> ref" where
  "inventory_components p = filter (\<lambda>c. c \<noteq> []) (split_on CHR ''/'' p)"

definition lookup :: "vsphere \<Rightarrow> ref \<Rightarrow> kind option" where
  "lookup s r = map_of (nodes s) r"

text \<open>\<open>finder.Datacenter\<close> finds the datacenter at a path; \<open>finder.DefaultDatacenter\<close>
  succeeds when the root holds exactly one datacenter. The object found carries its
  inventory path, rooted at the slash. The finder's glob patterns and its search by bare
  name below folders are not modelled: a name is looked up as the path it spells.\<close>

definition finder_Datacenter :: "vsphere \<Rightarrow> string \<Rightarrow> (string + object_Datacenter) \<times> vsphere" where
  "finder_Datacenter s name =
     (let s' = received s (DatacenterCall name); r = inventory_components name in
      case faults s (DatacenterCall name) of
        Some e \<Rightarrow> (Inl e, s')
      | None \<Rightarrow>
          (if lookup s r = Some Datacenter
           then (Inr \<lparr>dc_ref = r, dc_InventoryPath = ''/'' @ strings_Join r ''/''\<rparr>, s')
           else (Inl (''datacenter '' @ [CHR 0x27] @ name @ [CHR 0x27] @ '' not found''), s')))"

definition finder_DefaultDatacenter :: "vsphere \<Rightarrow> (string + object_Datacenter) \<times> vsphere" where
  "finder_DefaultDatacenter s =
     (let s' = received s (DatacenterCall []) in
      case faults s (DatacenterCall []) of
        Some e \<Rightarrow> (Inl e, s')
      | None \<Rightarrow>
          (case filter (\<lambda>(r, k). k = Datacenter \<and> length r = 1) (nodes s) of
             [] \<Rightarrow> (Inl ''default datacenter not found'', s')
           | [(r, k)] \<Rightarrow> (Inr \<lparr>dc_ref = r, dc_InventoryPath = ''/'' @ strings_Join r ''/''\<rparr>, s')
           | _ \<Rightarrow>
               (Inl ''default datacenter resolves to multiple instances, please specify'', s')))"

definition finder_DatacenterOrDefault :: "vsphere \<Rightarrow> string \<Rightarrow> (string + object_Datacenter) \<times> vsphere" where
  "finder_DatacenterOrDefault s name =
     (if name \<noteq> [] then finder_Datacenter s name else finder_DefaultDatacenter s)"

text \<open>\<open>SearchIndex.FindByInventoryPath\<close>: an absent object is the nil reference, not an
  error; a path without any component names nothing.\<close>

definition FindByInventoryPath :: "vsphere \<Rightarrow> string \<Rightarrow> (string + reference option) \<times> vsphere" where
  "FindByInventoryPath s p =
     (let s' = received s (FindByInventoryPathCall p); r = inventory_components p in
      case faults s (FindByInventoryPathCall p) of
        Some e \<Rightarrow> (Inl e, s')
      | None \<Rightarrow> (Inr (if r = [] then None else map_option (Reference r) (lookup s r)), s'))"

text \<open>The type assertion \<open>ref.(*object.Folder)\<close>: it panics on the nil interface and on a
  reference of another kind.\<close>

definition as_Folder :: "reference option \<Rightarrow> error + object_Folder" where
  "as_Folder x =
     (case x of
        None \<Rightarrow> Inl (Panic NilInterfaceConversion)
      | Some (Reference r k) \<Rightarrow>
          (if k = Folder then Inr \<lparr>fo_ref = r, fo_InventoryPath = []\<rparr>
           else Inl (Panic InterfaceConversion)))"

text \<open>\<open>Folder.CreateFolder\<close> returns a folder and an error as Go does: on failure the
  folder is nil. The service refuses a parent that is gone and a name that is taken.\<close>

definition Folder_CreateFolder ::
  "vsphere \<Rightarrow> object_Folder \<Rightarrow> string \<Rightarrow> (object_Folder option \<times> string option) \<times> vsphere" where
  "Folder_CreateFolder s parent name =
     (let s' = received s (CreateFolderCall (fo_ref parent) name);
          child = fo_ref parent @ [name] in
      case faults s (CreateFolderCall (fo_ref parent) name) of
        Some e \<Rightarrow> ((None, Some e), s')
      | None \<Rightarrow>
          (if lookup s (fo_ref parent) = None then ((None, Some ''managed object not found''), s')
           else if lookup s child \<noteq> None then ((None, Some ''duplicate name''), s')
           else ((Some \<lparr>fo_ref = child, fo_InventoryPath = []\<rparr>, None),
                 s'\<lparr>nodes := nodes s @ [(child, Folder)]\<rparr>)))"

definition Folder_Children :: "vsphere \<Rightarrow> object_Folder \<Rightarrow> (string + ref list) \<times> vsphere" where
  "Folder_Children s fo =
     (let s' = received s (ChildrenCall (fo_ref fo)) in
      case faults s (ChildrenCall (fo_ref fo)) of
        Some e \<Rightarrow> (Inl e, s')
      | None \<Rightarrow>
          (if lookup s (fo_ref fo) = None then (Inl ''managed object not found'', s')
           else (Inr (filter (\<lambda>q. q \<noteq> [] \<and> butlast q = fo_ref fo) (map fst (nodes s))), s')))"

text \<open>\<open>Folder.Destroy\<close> starts a task that removes the folder with everything below it;
  \<open>Task.Wait\<close> reports how the task ended.\<close>

definition Folder_Destroy :: "vsphere \<Rightarrow> object_Folder \<Rightarrow> (string + task) \<times> vsphere" where
  "Folder_Destroy s fo =
     (let s' = received s (DestroyCall (fo_ref fo)) in
      case faults s (DestroyCall (fo_ref fo)) of
        Some e \<Rightarrow> (Inl e, s')
      | None \<Rightarrow>
          (if lookup s (fo_ref fo) = None
           then (Inr (Task (fo_ref fo) (Some ''managed object not found'')), s')
           else (Inr (Task (fo_ref fo) None),
                 s'\<lparr>nodes := filter (\<lambda>(q, k). take (length (fo_ref fo)) q \<noteq> fo_ref fo) (nodes s)\<rparr>)))"

definition Task_Wait :: "vsphere \<Rightarrow> task \<Rightarrow> string option \<times> vsphere" where
  "Task_Wait s t =
     (case t of Task r res \<Rightarrow>
        (let s' = received s (WaitCall r) in
         case faults s (WaitCall r) of
           Some e \<Rightarrow> (Some e, s')
         | None \<Rightarrow> (res, s')))"

section \<open>The folder resource\<close>

record folder =
  datacenter :: string
  existingPath :: string
  path :: string

text \<open>The fields of \<open>schema.ResourceData\<close> that the resource declares, and its identity.\<close>

record ResourceData =
  d_datacenter :: string
  d_path :: string
  d_existing_path :: string
  d_Id :: string

subsection \<open>createFolder\<close>

text \<open>
  The first loop of \<open>createFolder\<close>: look the path up; when it is absent, remember its last
  name, cut the path at its last slash, and give up when what remains is the inventory
  path of the datacenter. The loop ends with the reference found and the names
  remembered, leaf first.
\<close>

function createFolder_find ::
  "object_Datacenter \<Rightarrow> string \<Rightarrow> string \<Rightarrow> string list \<Rightarrow> vsphere
     \<Rightarrow> (error + reference \<times> string list) \<times> vsphere" where
  "createFolder_find dc base p folders s =
     (case FindByInventoryPath s p of
        (Inl e, s') \<Rightarrow> (Inl (Error (''error '' @ e)), s')
      | (Inr None, s') \<Rightarrow>
          (case slice_to p (strings_LastIndex p CHR ''/'') of
             Inl pn \<Rightarrow> (Inl pn, s')
           | Inr p' \<Rightarrow>
               (if p' = dc_InventoryPath dc
                then (Inl (Error (''vSphere base path '' @ filepath_ToSlash base @ '' not found'')), s')
                else createFolder_find dc base p' (folders @ [snd (filepath_Split p)]) s'))
      | (Inr (Some r), s') \<Rightarrow> (Inr (r, folders), s'))"
  by pat_completeness auto
termination
  by (relation "measure (\<lambda>(dc, base, p, folders, s). length p)")
     (auto simp: slice_to_def strings_LastIndex_def split: if_splits)

declare createFolder_find.simps [simp del]

text \<open>
  The second loop: the names are created from the last remembered to the first, each under
  the folder the previous call returned. The variable \<open>root\<close> is a pointer to a folder,
  nil or not; it is assigned the result of the call before the error is inspected, and the
  error message reads its inventory path.
\<close>

fun createFolder_create ::
  "object_Folder option \<Rightarrow> string list \<Rightarrow> vsphere \<Rightarrow> error option \<times> vsphere" where
  "createFolder_create root [] s = (None, s)"
| "createFolder_create root (name # names) s =
     (case root of
        None \<Rightarrow> (Some (Panic NilDereference), s)
      | Some parent \<Rightarrow>
          (case Folder_CreateFolder s parent name of
             ((root', Some e), s') \<Rightarrow>
               (case root' of
                  None \<Rightarrow> (Some (Panic NilDereference), s')
                | Some r \<Rightarrow>
                    (Some (Error (''Failed to create folder at '' @ fo_InventoryPath r @ ''; '' @ e)),
                     s'))
           | ((root', None), s') \<Rightarrow> createFolder_create root' names s'))"

text \<open>\<open>createFolder\<close> receives a pointer to the folder record; the record is returned as
  the function leaves it.\<close>

definition createFolder :: "vsphere \<Rightarrow> folder \<Rightarrow> error option \<times> folder \<times> vsphere" where
  "createFolder s f =
     (case finder_DatacenterOrDefault s (datacenter f) of
        (Inl e, s1) \<Rightarrow> (Some (Error (''error '' @ e)), f, s1)
      | (Inr dc, s1) \<Rightarrow>
          (let base = filepath_Join [dc_InventoryPath dc, ''vm''];
               p = filepath_ToSlash (filepath_Join [base, path f]) in
           case createFolder_find dc base p [] s1 of
             (Inl e, s2) \<Rightarrow> (Some e, f, s2)
           | (Inr (r, folders), s2) \<Rightarrow>
               (case as_Folder (Some r) of
                  Inl pn \<Rightarrow> (Some pn, f, s2)
                | Inr root \<Rightarrow>
                    (case createFolder_create (Some root) (rev folders) s2 of
                       (e, s3) \<Rightarrow> (e, f, s3)))))"

subsection \<open>getDatacenter and Read\<close>

definition getDatacenter :: "vsphere \<Rightarrow> string \<Rightarrow> (string + object_Datacenter) \<times> vsphere" where
  "getDatacenter s dc =
     (if dc \<noteq> [] then finder_Datacenter s dc else finder_DefaultDatacenter s)"

definition resourceVSphereFolderRead ::
  "vsphere \<Rightarrow> ResourceData \<Rightarrow> error option \<times> ResourceData \<times> vsphere" where
  "resourceVSphereFolderRead s d =
     (case getDatacenter s (d_datacenter d) of
        (Inl e, s1) \<Rightarrow> (Some (Error e), d, s1)
      | (Inr dc, s1) \<Rightarrow>
          (case FindByInventoryPath s1 (d_datacenter d @ ''/vm/'' @ d_path d) of
             (Inl e, s2) \<Rightarrow> (Some (Error e), d, s2)
           | (Inr None, s2) \<Rightarrow> (None, d\<lparr>d_Id := []\<rparr>, s2)
           | (Inr (Some r), s2) \<Rightarrow> (None, d, s2)))"

subsection \<open>Create\<close>

definition resourceVSphereFolderCreate ::
  "vsphere \<Rightarrow> ResourceData \<Rightarrow> error option \<times> ResourceData \<times> vsphere" where
  "resourceVSphereFolderCreate s d =
     (let f = \<lparr>datacenter = d_datacenter d, existingPath = [],
                path = strings_TrimRight (d_path d) ''/''\<rparr> in
      case createFolder s f of
        (Some e, f', s') \<Rightarrow> (Some e, d, s')
      | (None, f', s') \<Rightarrow>
          resourceVSphereFolderRead s'
            (d\<lparr>d_existing_path := existingPath f',
               d_Id := datacenter f' @ ''/'' @ path f'\<rparr>))"

subsection \<open>deleteFolder and Delete\<close>

text \<open>
  The loop of \<open>deleteFolder\<close>, entered with the current path and the folder held. A turn
  that finds the folder empty computes the parent path, destroys the folder, waits for
  the task and looks the parent up; the folder held changes only when that lookup finds
  something.
\<close>

function deleteFolder_loop ::
  "folder \<Rightarrow> string \<Rightarrow> object_Folder \<Rightarrow> vsphere \<Rightarrow> error option \<times> vsphere" where
  "deleteFolder_loop f currentPath fo s =
     (if currentPath \<noteq> existingPath f then
        (case Folder_Children s fo of
           (Inl e, s1) \<Rightarrow> (Some (Error e), s1)
         | (Inr children, s1) \<Rightarrow>
             (if length children > 0
              then (Some (Error (''Folder '' @ currentPath @ '' is non-empty and will not be deleted'')), s1)
              else
                (let parent = (if path_Dir currentPath = ''.'' then [] else path_Dir currentPath) in
                 case Folder_Destroy s1 fo of
                   (Inl e, s2) \<Rightarrow> (Some (Error e), s2)
                 | (Inr t, s2) \<Rightarrow>
                     (case Task_Wait s2 t of
                        (Some e, s3) \<Rightarrow> (Some (Error e), s3)
                      | (None, s3) \<Rightarrow>
                          (case FindByInventoryPath s3 (datacenter f @ ''/vm/'' @ parent) of
                             (Inl e, s4) \<Rightarrow> (Some (Error e), s4)
                           | (Inr None, s4) \<Rightarrow> deleteFolder_loop f parent fo s4
                           | (Inr (Some r), s4) \<Rightarrow>
                               (case as_Folder (Some r) of
                                  Inl pn \<Rightarrow> (Some pn, s4)
                                | Inr fo' \<Rightarrow> deleteFolder_loop f parent fo' s4))))))
      else (None, s))"
  by pat_completeness auto
termination
  by (relation "measure (\<lambda>(f, currentPath, fo, s). length (nodes s))")
     (auto simp: Folder_Children_def Folder_Destroy_def Task_Wait_def FindByInventoryPath_def
        received_def Let_def lookup_def
        split: option.splits if_splits
        dest!: map_of_SomeD elim!: length_filter_less)

declare deleteFolder_loop.simps [simp del]

definition deleteFolder :: "vsphere \<Rightarrow> folder \<Rightarrow> error option \<times> folder \<times> vsphere" where
  "deleteFolder s f =
     (case getDatacenter s (datacenter f) of
        (Inl e, s1) \<Rightarrow> (Some (Error e), f, s1)
      | (Inr dc, s1) \<Rightarrow>
          (case FindByInventoryPath s1 (datacenter f @ ''/vm/'' @ path f) of
             (Inl e, s2) \<Rightarrow>
               (Some (Error (''[ERROR] Could not locate folder '' @ path f @ '': '' @ e)), f, s2)
           | (Inr folderRef, s2) \<Rightarrow>
               (case as_Folder folderRef of
                  Inl pn \<Rightarrow> (Some pn, f, s2)
                | Inr fo \<Rightarrow>
                    (case deleteFolder_loop f (path f) fo s2 of
                       (e, s3) \<Rightarrow> (e, f, s3)))))"

definition resourceVSphereFolderDelete ::
  "vsphere \<Rightarrow> ResourceData \<Rightarrow> error option \<times> ResourceData \<times> vsphere" where
  "resourceVSphereFolderDelete s d =
     (let f = \<lparr>datacenter = d_datacenter d, existingPath = d_existing_path d,
                path = strings_TrimRight (d_path d) ''/''\<rparr> in
      case deleteFolder s f of
        (Some e, f', s') \<Rightarrow> (Some e, d, s')
      | (None, f', s') \<Rightarrow> (None, d\<lparr>d_Id := []\<rparr>, s'))"

section \<open>Plain names and tree-shaped inventories\<close>

text \<open>A plain name is a path component that \<open>path.Clean\<close> leaves alone: it is not empty,
  holds no slash and is neither \<open>.\<close> nor \<open>..\<close>.\<close>

definition plain_name :: "string \<Rightarrow> bool" where
  "plain_name x \<longleftrightarrow> x \<noteq> [] \<and> CHR ''/'' \<notin> set x \<and> x \<noteq> ''.'' \<and> x \<noteq> ''..''"

text \<open>An inventory is a tree when every node but the root has its parent.\<close>

definition tree_closed :: "vsphere \<Rightarrow> bool" where
  "tree_closed s \<longleftrightarrow> (\<forall>(q, k)\<in>set (nodes s). q \<noteq> [] \<longrightarrow> lookup s (butlast q) \<noteq> None)"

section \<open>Example inventories and resources\<close>

text \<open>An inventory with one datacenter \<open>dc1\<close>, whose VM root holds the empty folder
  \<open>a\<close>; and the same inventory with a service that refuses to create \<open>c\<close> under
  \<open>a/b\<close>.\<close>

definition example_inventory :: vsphere where
  "example_inventory =
     \<lparr>nodes = [([], Folder), ([''dc1''], Datacenter), ([''dc1'', ''vm''], Folder),
               ([''dc1'', ''vm'', ''a''], Folder)],
      faults = (\<lambda>c. None), calls = []\<rparr>"

definition example_refusing :: vsphere where
  "example_refusing =
     example_inventory\<lparr>faults :=
       (\<lambda>c. if c = CreateFolderCall [''dc1'', ''vm'', ''a'', ''b''] ''c''
            then Some ''permission denied'' else None)\<rparr>"

text \<open>The inventory after \<open>a/b/c\<close> was created below \<open>a\<close>; and the same with an object
  \<open>x\<close> that something else put into \<open>a/b\<close>.\<close>

definition example_created :: vsphere where
  "example_created =
     \<lparr>nodes = [([], Folder), ([''dc1''], Datacenter), ([''dc1'', ''vm''], Folder),
               ([''dc1'', ''vm'', ''a''], Folder), ([''dc1'', ''vm'', ''a'', ''b''], Folder),
               ([''dc1'', ''vm'', ''a'', ''b'', ''c''], Folder)],
      faults = (\<lambda>c. None), calls = []\<rparr>"

definition example_shared :: vsphere where
  "example_shared =
     \<lparr>nodes = [([], Folder), ([''dc1''], Datacenter), ([''dc1'', ''vm''], Folder),
               ([''dc1'', ''vm'', ''a''], Folder), ([''dc1'', ''vm'', ''a'', ''b''], Folder),
               ([''dc1'', ''vm'', ''a'', ''b'', ''c''], Folder),
               ([''dc1'', ''vm'', ''a'', ''b'', ''x''], Other)],
      faults = (\<lambda>c. None), calls = []\<rparr>"

text \<open>An inventory whose VM root holds a folder \<open>z\<close> that belongs to someone else.\<close>

definition example_siblings :: vsphere where
  "example_siblings =
     \<lparr>nodes = [([], Folder), ([''dc1''], Datacenter), ([''dc1'', ''vm''], Folder),
               ([''dc1'', ''vm'', ''z''], Folder)],
      faults = (\<lambda>c. None), calls = []\<rparr>"

text \<open>A datacenter that has a \<open>host\<close> folder and no VM root.\<close>

definition example_no_vm :: vsphere where
  "example_no_vm =
     \<lparr>nodes = [([], Folder), ([''dc1''], Datacenter), ([''dc1'', ''host''], Folder)],
      faults = (\<lambda>c. None), calls = []\<rparr>"

text \<open>Resource data as the plugin host passes it to Create: the path \<open>a/b/c\<close> in \<open>dc1\<close>,
  a path in the default datacenter, a path that leaves the VM root, a path of two plain
  names, and a path written with a leading slash.\<close>

definition example_resource :: ResourceData where
  "example_resource = \<lparr>d_datacenter = ''dc1'', d_path = ''a/b/c'', d_existing_path = [], d_Id = []\<rparr>"

definition example_default :: ResourceData where
  "example_default = \<lparr>d_datacenter = [], d_path = ''dev/team-a'', d_existing_path = [], d_Id = []\<rparr>"

definition example_escaping :: ResourceData where
  "example_escaping =
     \<lparr>d_datacenter = ''dc1'', d_path = ''../host/x'', d_existing_path = [], d_Id = []\<rparr>"

definition example_plain :: ResourceData where
  "example_plain = \<lparr>d_datacenter = ''dc1'', d_path = ''x/y'', d_existing_path = [], d_Id = []\<rparr>"

definition example_rooted :: ResourceData where
  "example_rooted = \<lparr>d_datacenter = ''dc1'', d_path = ''/a'', d_existing_path = [], d_Id = []\<rparr>"

text \<open>Resource data as Delete receives it: a resource that created nothing, and one whose
  folders \<open>b\<close> and \<open>c\<close> were created below \<open>a\<close>.\<close>

definition example_unmanaged :: ResourceData where
  "example_unmanaged =
     \<lparr>d_datacenter = ''dc1'', d_path = ''a'', d_existing_path = ''a'', d_Id = ''dc1/a''\<rparr>"

definition example_stale :: ResourceData where
  "example_stale =
     \<lparr>d_datacenter = ''dc1'', d_path = ''a/b/c'', d_existing_path = ''a'', d_Id = ''dc1/a/b/c''\<rparr>"

text \<open>Folder records as \<open>deleteFolder\<close> receives them: \<open>a/b/c\<close> with the boundary \<open>a\<close>,
  and \<open>a\<close> with the VM root as boundary.\<close>

definition example_folder :: folder where
  "example_folder = \<lparr>datacenter = ''dc1'', existingPath = ''a'', path = ''a/b/c''\<rparr>"

definition example_whole :: folder where
  "example_whole = \<lparr>datacenter = ''dc1'', existingPath = [], path = ''a''\<rparr>"

section \<open>Facts about the string functions\<close>

lemma split_on_nonempty: "split_on c xs \<noteq> []"
  by (induction xs) auto

lemma split_on_no_sep: "c \<notin> set x \<Longrightarrow> split_on c x = [x]"
  by (induction x) auto

lemma split_on_append: "split_on c (xs @ c # ys) = split_on c xs @ split_on c ys"
proof (induction xs)
  case Nil
  show ?case by simp
next
  case (Cons x xs)
  then show ?case using split_on_nonempty [of c xs] by (cases "split_on c xs") auto
qed

lemma components_append:
  "inventory_components (xs @ CHR ''/'' # ys) = inventory_components xs @ inventory_components ys"
  by (simp add: inventory_components_def split_on_append)

lemma components_slash: "inventory_components (CHR ''/'' # ys) = inventory_components ys"
  using components_append [of "[]" ys] by (simp add: inventory_components_def)

lemma components_name: "x \<noteq> [] \<Longrightarrow> CHR ''/'' \<notin> set x \<Longrightarrow> inventory_components x = [x]"
  by (simp add: inventory_components_def split_on_no_sep)

lemma components_empty: "inventory_components [] = []"
  by (simp add: inventory_components_def)

lemma Join_snoc: "xs \<noteq> [] \<Longrightarrow> strings_Join (xs @ [x]) sep = strings_Join xs sep @ sep @ x"
  by (induction xs sep rule: strings_Join.induct) auto

lemma components_Join:
  "\<forall>x\<in>set xs. x \<noteq> [] \<and> CHR ''/'' \<notin> set x \<Longrightarrow> inventory_components (strings_Join xs ''/'') = xs"
proof (induction xs rule: rev_induct)
  case Nil
  show ?case by (simp add: components_empty)
next
  case (snoc x xs)
  show ?case
  proof (cases "xs = []")
    case True
    then show ?thesis using snoc.prems by (simp add: components_name)
  next
    case False
    then show ?thesis using snoc by (simp add: Join_snoc components_append components_name)
  qed
qed

lemma components_vm:
  "inventory_components (x @ ''/vm/'' @ y) = inventory_components x @ [''vm''] @ inventory_components y"
proof -
  have "x @ ''/vm/'' @ y = x @ CHR ''/'' # (''vm'' @ CHR ''/'' # y)" by simp
  then show ?thesis
    by (simp only: components_append) (simp add: components_name)
qed

lemma clean_fold_plain:
  "\<forall>c\<in>set cs. c = [] \<or> plain_name c \<Longrightarrow>
   foldl (clean_component r) acc cs = acc @ filter (\<lambda>c. c \<noteq> []) cs"
  by (induction cs arbitrary: acc) (auto simp: clean_component_def plain_name_def)

lemma Clean_rooted_plain:
  assumes "\<forall>c\<in>set (inventory_components p). plain_name c"
  shows "path_Clean (CHR ''/'' # p) = CHR ''/'' # strings_Join (inventory_components p) ''/''"
proof -
  have "\<forall>c\<in>set (split_on CHR ''/'' (CHR ''/'' # p)). c = [] \<or> plain_name c"
    using assms by (auto simp: inventory_components_def)
  then have "foldl (clean_component True) [] (split_on CHR ''/'' (CHR ''/'' # p))
      = inventory_components (CHR ''/'' # p)"
    by (simp only: clean_fold_plain inventory_components_def) simp
  then show ?thesis
    by (simp add: path_Clean_def components_slash del: split_on.simps)
qed

lemma takeWhile_rev_all: "c \<notin> set x \<Longrightarrow> takeWhile (\<lambda>y. y \<noteq> c) (rev x) = rev x"
  by (auto simp: takeWhile_eq_all_conv)

lemma cut_last_index:
  "CHR ''/'' \<notin> set x \<Longrightarrow> strings_LastIndex (pre @ CHR ''/'' # x) CHR ''/'' = int (length pre)"
  by (simp add: strings_LastIndex_def takeWhile_tail takeWhile_rev_all)

lemma cut_slice:
  "CHR ''/'' \<notin> set x \<Longrightarrow>
   slice_to (pre @ CHR ''/'' # x) (strings_LastIndex (pre @ CHR ''/'' # x) CHR ''/'') = Inr pre"
  by (simp add: cut_last_index slice_to_def)

lemma cut_Split:
  "CHR ''/'' \<notin> set x \<Longrightarrow> filepath_Split (pre @ CHR ''/'' # x) = (pre @ ''/'', x)"
  by (simp add: filepath_Split_def Let_def takeWhile_tail takeWhile_rev_all)

lemma Join_inject:
  assumes "\<forall>x\<in>set xs. x \<noteq> [] \<and> CHR ''/'' \<notin> set x"
    and "\<forall>x\<in>set ys. x \<noteq> [] \<and> CHR ''/'' \<notin> set x"
    and "strings_Join xs ''/'' = strings_Join ys ''/''"
  shows "xs = ys"
  using assms components_Join by metis

lemma Dir_Join:
  assumes "\<forall>x\<in>set (xs @ [x]). plain_name x"
  shows "(if path_Dir (strings_Join (xs @ [x]) ''/'') = ''.'' then []
          else path_Dir (strings_Join (xs @ [x]) ''/'')) = strings_Join xs ''/''"
proof (cases "xs = []")
  case True
  then show ?thesis using assms
    by (simp add: path_Dir_def filepath_Split_def plain_name_def path_Clean_def takeWhile_rev_all)
next
  case False
  have nx: "CHR ''/'' \<notin> set x" using assms by (simp add: plain_name_def)
  have sp: "filepath_Split (strings_Join (xs @ [x]) ''/'') = (strings_Join xs ''/'' @ ''/'', x)"
    using False cut_Split [OF nx, of "strings_Join xs ''/''"] by (simp add: Join_snoc)
  obtain y ys where xs: "xs = y # ys" using False by (cases xs) auto
  then have "plain_name y" using assms by simp
  then obtain c cs where y: "y = c # cs" "c \<noteq> CHR ''/''"
    by (cases y) (auto simp: plain_name_def)
  have hdj: "strings_Join xs ''/'' \<noteq> [] \<and> hd (strings_Join xs ''/'') \<noteq> CHR ''/''"
    using xs y by (cases ys) auto
  have pl: "\<forall>c\<in>set xs. c \<noteq> [] \<and> CHR ''/'' \<notin> set c" using assms by (auto simp: plain_name_def)
  have comps: "split_on CHR ''/'' (strings_Join xs ''/'' @ ''/'') = split_on CHR ''/'' (strings_Join xs ''/'') @ [[]]"
    using split_on_append [of "CHR ''/''" "strings_Join xs ''/''" "[]"] by simp
  have f1: "filter (\<lambda>c. c \<noteq> []) (split_on CHR ''/'' (strings_Join xs ''/'')) = xs"
    using components_Join [OF pl] by (simp add: inventory_components_def)
  have all: "\<forall>c\<in>set (split_on CHR ''/'' (strings_Join xs ''/'') @ [[]]). c = [] \<or> plain_name c"
  proof
    fix c assume "c \<in> set (split_on CHR ''/'' (strings_Join xs ''/'') @ [[]])"
    then have "c = [] \<or> c \<in> set (filter (\<lambda>c. c \<noteq> []) (split_on CHR ''/'' (strings_Join xs ''/'')))"
      by auto
    then show "c = [] \<or> plain_name c" using f1 assms by auto
  qed
  have fold: "foldl (clean_component False) [] (split_on CHR ''/'' (strings_Join xs ''/'' @ ''/'')) = xs"
    unfolding comps using clean_fold_plain [OF all, of False "[]"] f1 by simp
  have "path_Clean (strings_Join xs ''/'' @ ''/'') = strings_Join xs ''/''"
    using hdj fold by (simp add: path_Clean_def Let_def del: split_on.simps)
  moreover have "strings_Join xs ''/'' \<noteq> ''.''"
  proof
    assume "strings_Join xs ''/'' = ''.''"
    then have "inventory_components (strings_Join xs ''/'') = [''.'']"
      by (simp add: components_name)
    then have "xs = [''.'']" using components_Join [OF pl] by simp
    then show False using assms by (simp add: plain_name_def)
  qed
  ultimately show ?thesis using sp by (simp add: path_Dir_def)
qed

subsection \<open>The parent of a path\<close>

text \<open>The loop of \<open>deleteFolder\<close> replaces the current path by \<open>path.Dir\<close> of it, with
  \<open>.\<close> read as the empty string. The result is strictly shorter, except for the empty
  path and the single slash, which are their own parents.\<close>

lemma Join_split: "strings_Join (split_on c x) [c] = x"
proof (induction x)
  case Nil
  show ?case by simp
next
  case (Cons a x)
  obtain h t where S: "split_on c x = h # t"
    using split_on_nonempty [of c x] by (cases "split_on c x") auto
  show ?case using Cons S by (cases t) auto
qed

lemma Join_length:
  "cs \<noteq> [] \<Longrightarrow> Suc (length (strings_Join cs ''/'')) = sum_list (map length cs) + length cs"
  by (induction cs "''/''" rule: strings_Join.induct) auto

lemma split_length:
  "Suc (length x) = sum_list (map length (split_on CHR ''/'' x)) + length (split_on CHR ''/'' x)"
  using Join_length [OF split_on_nonempty, of "CHR ''/''" x] Join_split [of "CHR ''/''" x]
  by simp

lemma butlast_total:
  "sum_list (map length (butlast acc)) + length (butlast acc) \<le> sum_list (map length acc) + length acc"
  by (induction acc) auto

lemma clean_fold_total:
  "sum_list (map length (foldl (clean_component r) acc cs)) + length (foldl (clean_component r) acc cs)
     \<le> sum_list (map length acc) + length acc +
        (sum_list (map length (filter (\<lambda>c. c \<noteq> []) cs)) + length (filter (\<lambda>c. c \<noteq> []) cs))"
proof (induction cs arbitrary: acc)
  case Nil
  show ?case by simp
next
  case (Cons c cs)
  have step: "sum_list (map length (clean_component r acc c)) + length (clean_component r acc c)
      \<le> sum_list (map length acc) + length acc + (if c = [] then 0 else length c + 1)"
    using butlast_total [of acc] by (auto simp: clean_component_def)
  show ?case
    using Cons [of "clean_component r acc c"] step by (cases "c = []") auto
qed

lemma nonempty_total:
  "sum_list (map length (filter (\<lambda>c. c \<noteq> []) cs)) + length (filter (\<lambda>c. c \<noteq> []) cs) +
     length (filter (\<lambda>c. c = []) cs) = sum_list (map length cs) + length cs"
  by (induction cs) auto

lemma Clean_dir_shorter:
  assumes "path_Clean (pre @ ''/'') \<noteq> ''.''" and "pre \<noteq> []"
  shows "length (path_Clean (pre @ ''/'')) < length (pre @ ''/'')"
proof -
  let ?dir = "pre @ ''/''"
  let ?cs = "split_on CHR ''/'' ?dir"
  let ?rooted = "hd ?dir = CHR ''/''"
  let ?out = "foldl (clean_component ?rooted) [] ?cs"
  let ?T = "sum_list (map length (filter (\<lambda>c. c \<noteq> []) ?cs)) + length (filter (\<lambda>c. c \<noteq> []) ?cs)"
  have cs: "?cs = split_on CHR ''/'' pre @ [[]]"
    using split_on_append [of "CHR ''/''" pre "[]"] by simp
  have tot: "?T + length (filter (\<lambda>c. c = []) ?cs) = Suc (length ?dir)"
    using nonempty_total [of ?cs] split_length [of ?dir] by simp
  have out: "sum_list (map length ?out) + length ?out \<le> ?T"
    using clean_fold_total [of ?rooted "[]" ?cs] by simp
  show ?thesis
  proof (cases ?rooted)
    case False
    have e1: "1 \<le> length (filter (\<lambda>c. c = []) ?cs)" unfolding cs by simp
    have r: "path_Clean ?dir = (if strings_Join ?out ''/'' = [] then ''.'' else strings_Join ?out ''/'')"
      using False by (simp add: path_Clean_def Let_def del: split_on.simps)
    then have ne: "strings_Join ?out ''/'' \<noteq> []" using assms(1) by (auto split: if_splits)
    then have one: "?out \<noteq> []" by auto
    have "Suc (length (strings_Join ?out ''/'')) = sum_list (map length ?out) + length ?out"
      by (rule Join_length [OF one])
    then have "Suc (length (strings_Join ?out ''/'')) \<le> ?T" using out by simp
    then have "Suc (length (strings_Join ?out ''/'')) \<le> length ?dir" using tot e1 by linarith
    then show ?thesis using r ne by simp
  next
    case True
    then obtain pre' where pre: "pre = CHR ''/'' # pre'" using assms(2) by (cases pre) auto
    have cs2: "?cs = [] # split_on CHR ''/'' pre' @ [[]]"
      using cs pre by simp
    have e2: "2 \<le> length (filter (\<lambda>c. c = []) ?cs)" unfolding cs2 by simp
    have r: "path_Clean ?dir = CHR ''/'' # strings_Join ?out ''/''"
      using True by (simp add: path_Clean_def Let_def del: split_on.simps)
    show ?thesis
    proof (cases "?out = []")
      case True
      then have "path_Clean ?dir = ''/''" using r by simp
      then show ?thesis using pre by simp
    next
      case False
      have "Suc (length (strings_Join ?out ''/'')) = sum_list (map length ?out) + length ?out"
        by (rule Join_length [OF False])
      then have "Suc (length (strings_Join ?out ''/'')) \<le> ?T" using out by simp
      then have "Suc (Suc (length (strings_Join ?out ''/''))) \<le> length ?dir" using tot e2 by linarith
      then show ?thesis using r by simp
    qed
  qed
qed

lemma Split_parts:
  "fst (filepath_Split p) @ snd (filepath_Split p) = p"
  "fst (filepath_Split p) = [] \<or> (\<exists>pre. fst (filepath_Split p) = pre @ ''/'')"
proof -
  let ?file = "rev (takeWhile (\<lambda>x. x \<noteq> CHR ''/'') (rev p))"
  have p: "p = rev (dropWhile (\<lambda>x. x \<noteq> CHR ''/'') (rev p)) @ ?file"
  proof -
    have "rev p = takeWhile (\<lambda>x. x \<noteq> CHR ''/'') (rev p) @ dropWhile (\<lambda>x. x \<noteq> CHR ''/'') (rev p)"
      by simp
    then have "rev (rev p) =
        rev (takeWhile (\<lambda>x. x \<noteq> CHR ''/'') (rev p) @ dropWhile (\<lambda>x. x \<noteq> CHR ''/'') (rev p))"
      by (rule arg_cong)
    then show ?thesis by (simp only: rev_append rev_rev_ident)
  qed
  have len: "length p - length ?file = length (rev (dropWhile (\<lambda>x. x \<noteq> CHR ''/'') (rev p)))"
    using arg_cong [OF p, of length] by simp
  have dir: "fst (filepath_Split p) = rev (dropWhile (\<lambda>x. x \<noteq> CHR ''/'') (rev p))"
    unfolding filepath_Split_def Let_def fst_conv len
    by (subst (2) p) simp
  show "fst (filepath_Split p) @ snd (filepath_Split p) = p"
    using p dir by (simp add: filepath_Split_def Let_def)
  show "fst (filepath_Split p) = [] \<or> (\<exists>pre. fst (filepath_Split p) = pre @ ''/'')"
  proof (cases "dropWhile (\<lambda>x. x \<noteq> CHR ''/'') (rev p)")
    case Nil
    then show ?thesis using dir by simp
  next
    case (Cons a as)
    then have "a = CHR ''/''" using hd_dropWhile [of "\<lambda>x. x \<noteq> CHR ''/''" "rev p"] by auto
    then show ?thesis using dir Cons by simp
  qed
qed

lemma parent_shorter:
  assumes "p \<noteq> []" and "p \<noteq> ''/''"
  shows "length (if path_Dir p = ''.'' then [] else path_Dir p) < length p"
proof (cases "path_Dir p = ''.''")
  case True
  then show ?thesis using assms(1) by simp
next
  case False
  let ?dir = "fst (filepath_Split p)"
  have whole: "?dir @ snd (filepath_Split p) = p" by (rule Split_parts(1))
  have le: "length ?dir \<le> length p" using arg_cong [OF whole, of length] by simp
  have notdot: "path_Clean ?dir \<noteq> ''.''" using False by (simp add: path_Dir_def)
  have "?dir \<noteq> []" using notdot by (auto simp: path_Clean_def)
  then obtain pre where pre: "?dir = pre @ ''/''" using Split_parts(2) [of p] by auto
  show ?thesis
  proof (cases "pre = []")
    case True
    then have d: "?dir = ''/''" using pre by simp
    then have "path_Dir p = ''/''" by (simp add: path_Dir_def path_Clean_def clean_component_def)
    moreover have "1 < length p"
    proof -
      have "snd (filepath_Split p) \<noteq> []" using whole d assms(2) by auto
      then show ?thesis using arg_cong [OF whole, of length] d by (cases "snd (filepath_Split p)") auto
    qed
    ultimately show ?thesis by simp
  next
    case np: False
    have "length (path_Clean (pre @ ''/'')) < length (pre @ ''/'')"
      using Clean_dir_shorter [of pre] notdot pre np by simp
    then show ?thesis using le pre False by (simp add: path_Dir_def)
  qed
qed

lemma parent_fixed:
  "(if path_Dir [] = ''.'' then [] else path_Dir []) = []"
  "(if path_Dir ''/'' = ''.'' then [] else path_Dir ''/'') = ''/''"
  by (simp_all add: path_Dir_def path_Clean_def filepath_Split_def clean_component_def)

section \<open>Facts about the service calls and the loops\<close>

lemma lookup_calls [simp]: "lookup (s\<lparr>calls := c\<rparr>) r = lookup s r"
  by (simp add: lookup_def)

lemma lookup_destroyed:
  "map_of (filter (\<lambda>(q, k). take (length r) q \<noteq> r) ns) x =
     (if take (length r) x \<noteq> r then map_of ns x else None)"
  by (induction ns) auto

lemma lookup_created:
  "map_of (ns @ [(c, k)]) x = (case map_of ns x of Some v \<Rightarrow> Some v | None \<Rightarrow> if x = c then Some k else None)"
  by (induction ns) auto

lemma loop_exit: "deleteFolder_loop f (existingPath f) fo s = (None, s)"
  by (subst deleteFolder_loop.simps) simp

lemma Children_result:
  assumes "faults s (ChildrenCall (fo_ref fo)) = None" and "lookup s (fo_ref fo) = Some kd"
  shows "Folder_Children s fo =
     (Inr (filter (\<lambda>q. q \<noteq> [] \<and> butlast q = fo_ref fo) (map fst (nodes s))),
      s\<lparr>calls := calls s @ [ChildrenCall (fo_ref fo)]\<rparr>)"
  using assms by (simp add: Folder_Children_def received_def Let_def)

lemma Destroy_result:
  assumes "faults s (DestroyCall (fo_ref fo)) = None" and "lookup s (fo_ref fo) = Some kd"
  shows "Folder_Destroy s fo =
     (Inr (Task (fo_ref fo) None),
      s\<lparr>nodes := filter (\<lambda>(q, k). take (length (fo_ref fo)) q \<noteq> fo_ref fo) (nodes s),
        calls := calls s @ [DestroyCall (fo_ref fo)]\<rparr>)"
  using assms by (simp add: Folder_Destroy_def received_def Let_def)

lemma Wait_result:
  assumes "faults s (WaitCall r) = None"
  shows "Task_Wait s (Task r res) = (res, s\<lparr>calls := calls s @ [WaitCall r]\<rparr>)"
  using assms by (simp add: Task_Wait_def received_def Let_def)

lemma Find_result:
  assumes "faults s (FindByInventoryPathCall p) = None"
  shows "FindByInventoryPath s p =
     (Inr (if inventory_components p = [] then None
           else map_option (Reference (inventory_components p)) (lookup s (inventory_components p))),
      s\<lparr>calls := calls s @ [FindByInventoryPathCall p]\<rparr>)"
  using assms by (simp add: FindByInventoryPath_def received_def Let_def)

lemma loop_nonempty:
  assumes "cur \<noteq> existingPath f"
    and "faults s (ChildrenCall (fo_ref fo)) = None"
    and "lookup s (fo_ref fo) = Some kd"
    and "(q, k) \<in> set (nodes s)" and "q \<noteq> []" and "butlast q = fo_ref fo"
  shows "deleteFolder_loop f cur fo s =
     (Some (Error (''Folder '' @ cur @ '' is non-empty and will not be deleted'')),
      s\<lparr>calls := calls s @ [ChildrenCall (fo_ref fo)]\<rparr>)"
proof -
  have "q \<in> set (filter (\<lambda>q. q \<noteq> [] \<and> butlast q = fo_ref fo) (map fst (nodes s)))"
    using assms(4-6) by force
  then have ne: "length (filter (\<lambda>q. q \<noteq> [] \<and> butlast q = fo_ref fo) (map fst (nodes s))) > 0"
    by (simp only: length_greater_0_conv) force
  show ?thesis
    using assms(1) ne
    by (subst deleteFolder_loop.simps) (simp only: Children_result [OF assms(2,3)] prod.case sum.case simp_thms if_True)
qed

lemma loop_step:
  assumes "cur \<noteq> existingPath f"
    and "faults s = (\<lambda>c. None)"
    and "lookup s (fo_ref fo) = Some kd"
    and "\<forall>(q, k)\<in>set (nodes s). q \<noteq> [] \<longrightarrow> butlast q \<noteq> fo_ref fo"
    and "par = (if path_Dir cur = ''.'' then [] else path_Dir cur)"
    and "s' = s\<lparr>nodes := filter (\<lambda>(q, k). take (length (fo_ref fo)) q \<noteq> fo_ref fo) (nodes s),
                calls := calls s @ [ChildrenCall (fo_ref fo), DestroyCall (fo_ref fo),
                  WaitCall (fo_ref fo), FindByInventoryPathCall (datacenter f @ ''/vm/'' @ par)]\<rparr>"
    and "r = inventory_components (datacenter f @ ''/vm/'' @ par)"
    and "lookup s' r = None \<and> fo' = fo \<or>
         lookup s' r = Some Folder \<and> fo' = \<lparr>fo_ref = r, fo_InventoryPath = []\<rparr>"
  shows "deleteFolder_loop f cur fo s = deleteFolder_loop f par fo' s'"
proof -
  have ch: "filter (\<lambda>q. q \<noteq> [] \<and> butlast q = fo_ref fo) (map fst (nodes s)) = []"
    using assms(4) by (auto simp: filter_empty_conv)
  have c1: "Folder_Children s fo = (Inr [], s\<lparr>calls := calls s @ [ChildrenCall (fo_ref fo)]\<rparr>)"
    using Children_result [of s fo kd] assms(2,3) ch by simp
  have c2: "Folder_Destroy (s\<lparr>calls := calls s @ [ChildrenCall (fo_ref fo)]\<rparr>) fo =
      (Inr (Task (fo_ref fo) None),
       s\<lparr>nodes := filter (\<lambda>(q, k). take (length (fo_ref fo)) q \<noteq> fo_ref fo) (nodes s),
         calls := calls s @ [ChildrenCall (fo_ref fo), DestroyCall (fo_ref fo)]\<rparr>)"
    using Destroy_result [of "s\<lparr>calls := calls s @ [ChildrenCall (fo_ref fo)]\<rparr>" fo kd] assms(2,3)
    by simp
  have c3: "Task_Wait (s\<lparr>nodes := filter (\<lambda>(q, k). take (length (fo_ref fo)) q \<noteq> fo_ref fo) (nodes s),
         calls := calls s @ [ChildrenCall (fo_ref fo), DestroyCall (fo_ref fo)]\<rparr>) (Task (fo_ref fo) None) =
      (None, s\<lparr>nodes := filter (\<lambda>(q, k). take (length (fo_ref fo)) q \<noteq> fo_ref fo) (nodes s),
         calls := calls s @ [ChildrenCall (fo_ref fo), DestroyCall (fo_ref fo), WaitCall (fo_ref fo)]\<rparr>)"
    using assms(2) by (simp add: Wait_result)
  have c4: "FindByInventoryPath (s\<lparr>nodes := filter (\<lambda>(q, k). take (length (fo_ref fo)) q \<noteq> fo_ref fo) (nodes s),
         calls := calls s @ [ChildrenCall (fo_ref fo), DestroyCall (fo_ref fo), WaitCall (fo_ref fo)]\<rparr>)
         (datacenter f @ ''/vm/'' @ par) = (Inr (map_option (Reference r) (lookup s' r)), s')"
  proof -
    have "inventory_components (datacenter f @ ''/vm/'' @ par) \<noteq> []"
      by (simp only: components_vm) simp
    then show ?thesis
      using assms(2) by (simp add: Find_result assms(6,7) lookup_def)
  qed
  have "deleteFolder_loop f cur fo s =
     (case map_option (Reference r) (lookup s' r) of
        None \<Rightarrow> deleteFolder_loop f par fo s'
      | Some x \<Rightarrow> (case as_Folder (Some x) of Inl pn \<Rightarrow> (Some pn, s')
                    | Inr fo' \<Rightarrow> deleteFolder_loop f par fo' s'))"
    using assms(1)
    by (subst deleteFolder_loop.simps)
       (simp only: c1 c2 c3 c4 assms(5)[symmetric] Let_def prod.case sum.case option.case
          list.size if_False if_True less_irrefl simp_thms)
  then show ?thesis using assms(8) by (auto simp: as_Folder_def)
qed

lemma rooted_Join_snoc:
  "CHR ''/'' # strings_Join (xs @ [x]) ''/'' =
     (if xs = [] then [] else CHR ''/'' # strings_Join xs ''/'') @ CHR ''/'' # x"
  by (cases "xs = []") (simp_all add: Join_snoc)

lemma find_cut:
  assumes "CHR ''/'' \<notin> set x" and "xs \<noteq> []"
  shows "slice_to (CHR ''/'' # strings_Join (xs @ [x]) ''/'')
           (strings_LastIndex (CHR ''/'' # strings_Join (xs @ [x]) ''/'') CHR ''/'')
         = Inr (CHR ''/'' # strings_Join xs ''/'')"
    and "snd (filepath_Split (CHR ''/'' # strings_Join (xs @ [x]) ''/'')) = x"
  using assms cut_slice [of x "CHR ''/'' # strings_Join xs ''/''"]
    cut_Split [of x "CHR ''/'' # strings_Join xs ''/''"]
  by (simp_all add: Join_snoc)

lemma find_found:
  assumes "faults s (FindByInventoryPathCall p) = None"
    and "lookup s (inventory_components p) = Some k"
    and "inventory_components p \<noteq> []"
  shows "createFolder_find dc base p folders s =
     (Inr (Reference (inventory_components p) k, folders),
      s\<lparr>calls := calls s @ [FindByInventoryPathCall p]\<rparr>)"
  using assms by (subst createFolder_find.simps) (simp add: Find_result)

lemma find_missing:
  assumes "faults s (FindByInventoryPathCall p) = None"
    and "lookup s (inventory_components p) = None"
    and "slice_to p (strings_LastIndex p CHR ''/'') = Inr p'"
    and "p' \<noteq> dc_InventoryPath dc"
  shows "createFolder_find dc base p folders s =
     createFolder_find dc base p' (folders @ [snd (filepath_Split p)])
       (s\<lparr>calls := calls s @ [FindByInventoryPathCall p]\<rparr>)"
  using assms by (subst createFolder_find.simps) (simp add: Find_result)

lemma find_base_missing:
  assumes "faults s (FindByInventoryPathCall p) = None"
    and "lookup s (inventory_components p) = None"
    and "slice_to p (strings_LastIndex p CHR ''/'') = Inr (dc_InventoryPath dc)"
  shows "createFolder_find dc base p folders s =
     (Inl (Error (''vSphere base path '' @ filepath_ToSlash base @ '' not found'')),
      s\<lparr>calls := calls s @ [FindByInventoryPathCall p]\<rparr>)"
  using assms by (subst createFolder_find.simps) (simp add: Find_result)

lemma find_chain:
  assumes "\<forall>x\<in>set (R @ M). plain_name x"
    and "faults s = (\<lambda>c. None)"
    and "lookup s R = Some k"
    and "\<forall>j. 0 < j \<and> j \<le> length M \<longrightarrow> lookup s (R @ take j M) = None"
    and "dc_InventoryPath dc = CHR ''/'' # strings_Join D ''/''"
    and "\<forall>x\<in>set D. plain_name x"
    and "length D < length R"
  shows "createFolder_find dc base (CHR ''/'' # strings_Join (R @ M) ''/'') folders s =
     (Inr (Reference R k, folders @ rev M),
      s\<lparr>calls := calls s @
          map (\<lambda>j. FindByInventoryPathCall (CHR ''/'' # strings_Join (R @ take j M) ''/''))
            (rev [0..<Suc (length M)])\<rparr>)"
  using assms(1,2,3,4)
proof (induction M arbitrary: folders s rule: rev_induct)
  case Nil
  have pl: "\<forall>x\<in>set R. x \<noteq> [] \<and> CHR ''/'' \<notin> set x"
    using Nil.prems(1) by (auto simp: plain_name_def)
  have c: "inventory_components (CHR ''/'' # strings_Join R ''/'') = R"
    by (simp add: components_slash components_Join [OF pl])
  have "R \<noteq> []" using assms(7) by auto
  then show ?case
    using find_found [of s "CHR ''/'' # strings_Join R ''/''" k dc base folders] Nil.prems c
    by simp
next
  case (snoc m M)
  let ?p = "CHR ''/'' # strings_Join (R @ M @ [m]) ''/''"
  let ?p' = "CHR ''/'' # strings_Join (R @ M) ''/''"
  let ?s1 = "s\<lparr>calls := calls s @ [FindByInventoryPathCall ?p]\<rparr>"
  have pl: "\<forall>x\<in>set (R @ M @ [m]). x \<noteq> [] \<and> CHR ''/'' \<notin> set x"
    using snoc.prems(1) by (auto simp: plain_name_def)
  have pl': "\<forall>x\<in>set (R @ M). x \<noteq> [] \<and> CHR ''/'' \<notin> set x"
    using pl by auto
  have plD: "\<forall>x\<in>set D. x \<noteq> [] \<and> CHR ''/'' \<notin> set x"
    using assms(6) by (auto simp: plain_name_def)
  have c: "inventory_components ?p = R @ M @ [m]"
    by (simp add: components_slash components_Join [OF pl])
  have none: "lookup s (R @ M @ [m]) = None"
    using snoc.prems(4) [rule_format, of "Suc (length M)"] by simp
  have RM: "R @ M \<noteq> []" using assms(7) by auto
  have cut: "slice_to ?p (strings_LastIndex ?p CHR ''/'') = Inr ?p'"
    and fname: "snd (filepath_Split ?p) = m"
    using find_cut [of m "R @ M"] pl RM by simp_all
  have neq: "?p' \<noteq> dc_InventoryPath dc"
  proof
    assume "?p' = dc_InventoryPath dc"
    then have "strings_Join (R @ M) ''/'' = strings_Join D ''/''" using assms(5) by simp
    then have "R @ M = D" using Join_inject [OF pl' plD] by simp
    then show False using assms(7) by auto
  qed
  have step: "createFolder_find dc base ?p folders s =
      createFolder_find dc base ?p' (folders @ [m]) ?s1"
    using find_missing [of s ?p ?p' dc base folders] snoc.prems(2) c none cut neq fname by simp
  have ih: "createFolder_find dc base ?p' (folders @ [m]) ?s1 =
     (Inr (Reference R k, (folders @ [m]) @ rev M),
      ?s1\<lparr>calls := calls ?s1 @
          map (\<lambda>j. FindByInventoryPathCall (CHR ''/'' # strings_Join (R @ take j M) ''/''))
            (rev [0..<Suc (length M)])\<rparr>)"
  proof (rule snoc.IH)
    show "\<forall>x\<in>set (R @ M). plain_name x" using snoc.prems(1) by auto
    show "faults ?s1 = (\<lambda>c. None)" using snoc.prems(2) by simp
    show "lookup ?s1 R = Some k" using snoc.prems(3) by simp
    show "\<forall>j. 0 < j \<and> j \<le> length M \<longrightarrow> lookup ?s1 (R @ take j M) = None"
      using snoc.prems(4) by (auto simp: less_Suc_eq_le)
  qed
  show ?case
    unfolding append_assoc [symmetric] step [unfolded append_assoc [symmetric]]
      ih [unfolded append_assoc [symmetric]]
    by simp
qed

lemma find_chain_absent:
  assumes "\<forall>x\<in>set (D @ M). plain_name x"
    and "faults s = (\<lambda>c. None)"
    and "\<forall>j. j \<le> length M \<longrightarrow> lookup s (D @ [''vm''] @ take j M) = None"
    and "dc_InventoryPath dc = CHR ''/'' # strings_Join D ''/''"
    and "D \<noteq> []"
  shows "createFolder_find dc base (CHR ''/'' # strings_Join (D @ [''vm''] @ M) ''/'') folders s =
     (Inl (Error (''vSphere base path '' @ filepath_ToSlash base @ '' not found'')),
      s\<lparr>calls := calls s @
          map (\<lambda>j. FindByInventoryPathCall (CHR ''/'' # strings_Join (D @ [''vm''] @ take j M) ''/''))
            (rev [0..<Suc (length M)])\<rparr>)"
  using assms(1,2,3)
proof (induction M arbitrary: folders s rule: rev_induct)
  case Nil
  let ?p = "CHR ''/'' # strings_Join (D @ [''vm'']) ''/''"
  have pl: "\<forall>x\<in>set (D @ [''vm'']). x \<noteq> [] \<and> CHR ''/'' \<notin> set x"
    using Nil.prems(1) by (auto simp: plain_name_def)
  have c: "inventory_components ?p = D @ [''vm'']"
    by (simp only: components_slash components_Join [OF pl])
  have none: "lookup s (D @ [''vm'']) = None"
    using Nil.prems(3) [rule_format, of 0] by simp
  have cut: "slice_to ?p (strings_LastIndex ?p CHR ''/'') = Inr (dc_InventoryPath dc)"
    using find_cut(1) [of "''vm''" D] assms(4,5) by simp
  show ?case
    using find_base_missing [of s ?p dc base folders] Nil.prems(2) c none cut by simp
next
  case (snoc m M)
  let ?p = "CHR ''/'' # strings_Join ((D @ [''vm''] @ M) @ [m]) ''/''"
  let ?p' = "CHR ''/'' # strings_Join (D @ [''vm''] @ M) ''/''"
  let ?s1 = "s\<lparr>calls := calls s @ [FindByInventoryPathCall ?p]\<rparr>"
  have pl: "\<forall>x\<in>set ((D @ [''vm''] @ M) @ [m]). x \<noteq> [] \<and> CHR ''/'' \<notin> set x"
    using snoc.prems(1) by (auto simp: plain_name_def)
  have pl': "\<forall>x\<in>set (D @ [''vm''] @ M). x \<noteq> [] \<and> CHR ''/'' \<notin> set x"
    using pl by auto
  have plD: "\<forall>x\<in>set D. x \<noteq> [] \<and> CHR ''/'' \<notin> set x"
    using pl by auto
  have c: "inventory_components ?p = (D @ [''vm''] @ M) @ [m]"
    by (simp only: components_slash components_Join [OF pl])
  have none: "lookup s ((D @ [''vm''] @ M) @ [m]) = None"
    using snoc.prems(3) [rule_format, of "Suc (length M)"] by simp
  have cut: "slice_to ?p (strings_LastIndex ?p CHR ''/'') = Inr ?p'"
    and fname: "snd (filepath_Split ?p) = m"
    using find_cut [of m "D @ [''vm''] @ M"] pl by simp_all
  have neq: "?p' \<noteq> dc_InventoryPath dc"
  proof
    assume "?p' = dc_InventoryPath dc"
    then have "strings_Join (D @ [''vm''] @ M) ''/'' = strings_Join D ''/''" using assms(4) by simp
    then have "D @ [''vm''] @ M = D" using Join_inject [OF pl' plD] by simp
    then show False by simp
  qed
  have step: "createFolder_find dc base ?p folders s =
      createFolder_find dc base ?p' (folders @ [m]) ?s1"
    using find_missing [of s ?p ?p' dc base folders] snoc.prems(2) c none cut neq fname by simp
  have ih: "createFolder_find dc base ?p' (folders @ [m]) ?s1 =
     (Inl (Error (''vSphere base path '' @ filepath_ToSlash base @ '' not found'')),
      ?s1\<lparr>calls := calls ?s1 @
          map (\<lambda>j. FindByInventoryPathCall (CHR ''/'' # strings_Join (D @ [''vm''] @ take j M) ''/''))
            (rev [0..<Suc (length M)])\<rparr>)"
  proof (rule snoc.IH)
    show "\<forall>x\<in>set (D @ M). plain_name x" using snoc.prems(1) by auto
    show "faults ?s1 = (\<lambda>c. None)" using snoc.prems(2) by simp
    show "\<forall>j. j \<le> length M \<longrightarrow> lookup ?s1 (D @ [''vm''] @ take j M) = None"
    proof (intro allI impI)
      fix j assume "j \<le> length M"
      then show "lookup ?s1 (D @ [''vm''] @ take j M) = None"
        using snoc.prems(3) [rule_format, of j] by simp
    qed
  qed
  have "createFolder_find dc base ?p folders s =
     (Inl (Error (''vSphere base path '' @ filepath_ToSlash base @ '' not found'')),
      ?s1\<lparr>calls := calls ?s1 @
          map (\<lambda>j. FindByInventoryPathCall (CHR ''/'' # strings_Join (D @ [''vm''] @ take j M) ''/''))
            (rev [0..<Suc (length M)])\<rparr>)"
    using step ih by simp
  then show ?case by simp
qed

lemma CreateFolder_result:
  assumes "faults s (CreateFolderCall (fo_ref parent) name) = None"
    and "lookup s (fo_ref parent) = Some k"
    and "lookup s (fo_ref parent @ [name]) = None"
  shows "Folder_CreateFolder s parent name =
     ((Some \<lparr>fo_ref = fo_ref parent @ [name], fo_InventoryPath = []\<rparr>, None),
      s\<lparr>nodes := nodes s @ [(fo_ref parent @ [name], Folder)],
        calls := calls s @ [CreateFolderCall (fo_ref parent) name]\<rparr>)"
  using assms by (simp add: Folder_CreateFolder_def received_def Let_def)

lemma create_chain:
  assumes "faults s = (\<lambda>c. None)"
    and "lookup s (fo_ref root) = Some k"
    and "\<forall>j. 0 < j \<and> j \<le> length M \<longrightarrow> lookup s (fo_ref root @ take j M) = None"
  shows "createFolder_create (Some root) M s =
     (None,
      s\<lparr>nodes := nodes s @ map (\<lambda>j. (fo_ref root @ take (Suc j) M, Folder)) [0..<length M],
        calls := calls s @ map (\<lambda>j. CreateFolderCall (fo_ref root @ take j M) (M ! j)) [0..<length M]\<rparr>)"
  using assms
proof (induction M arbitrary: root s k)
  case Nil
  show ?case by simp
next
  case (Cons m M)
  let ?r = "\<lparr>fo_ref = fo_ref root @ [m], fo_InventoryPath = []\<rparr>"
  let ?s1 = "s\<lparr>nodes := nodes s @ [(fo_ref root @ [m], Folder)],
        calls := calls s @ [CreateFolderCall (fo_ref root) m]\<rparr>"
  have none: "lookup s (fo_ref root @ [m]) = None"
    using Cons.prems(3) [rule_format, of 1] by simp
  have cr: "Folder_CreateFolder s root m = ((Some ?r, None), ?s1)"
    using CreateFolder_result [of s root m k] Cons.prems(1,2) none by simp
  have ih: "createFolder_create (Some ?r) M ?s1 =
     (None,
      ?s1\<lparr>nodes := nodes ?s1 @ map (\<lambda>j. (fo_ref ?r @ take (Suc j) M, Folder)) [0..<length M],
        calls := calls ?s1 @ map (\<lambda>j. CreateFolderCall (fo_ref ?r @ take j M) (M ! j)) [0..<length M]\<rparr>)"
  proof (rule Cons.IH)
    show "faults ?s1 = (\<lambda>c. None)" using Cons.prems(1) by simp
    show "lookup ?s1 (fo_ref ?r) = Some Folder"
      using none by (simp add: lookup_def map_add_def)
    show "\<forall>j. 0 < j \<and> j \<le> length M \<longrightarrow> lookup ?s1 (fo_ref ?r @ take j M) = None"
    proof (intro allI impI)
      fix j assume j: "0 < j \<and> j \<le> length M"
      then have "lookup s (fo_ref root @ take (Suc j) (m # M)) = None"
        using Cons.prems(3) [rule_format, of "Suc j"] by simp
      moreover have "take j M \<noteq> []" using j by auto
      ultimately show "lookup ?s1 (fo_ref ?r @ take j M) = None"
        by (simp add: lookup_def map_add_def)
    qed
  qed
  show ?case
    by (simp add: cr ih map_upt_Suc del: upt_Suc)
qed

lemma DatacenterOrDefault_result:
  assumes "finder_DatacenterOrDefault s n = (Inr dc, s1)"
  shows "s1 = s\<lparr>calls := calls s @ [DatacenterCall n]\<rparr>"
    and "dc_InventoryPath dc = CHR ''/'' # strings_Join (dc_ref dc) ''/''"
  using assms
  by (auto simp: finder_DatacenterOrDefault_def finder_Datacenter_def finder_DefaultDatacenter_def
      received_def Let_def split: if_splits option.splits list.splits)

lemma getDatacenter_eq: "getDatacenter s n = finder_DatacenterOrDefault s n"
  by (simp add: getDatacenter_def finder_DatacenterOrDefault_def)

lemma base_path:
  assumes "\<forall>x\<in>set D. plain_name x" and "D \<noteq> []"
  shows "filepath_Join [CHR ''/'' # strings_Join D ''/'', ''vm''] =
     CHR ''/'' # strings_Join (D @ [''vm'']) ''/''"
proof -
  have pl: "\<forall>x\<in>set D. x \<noteq> [] \<and> CHR ''/'' \<notin> set x"
    using assms(1) by (auto simp: plain_name_def)
  have c: "inventory_components (strings_Join D ''/'' @ CHR ''/'' # ''vm'') = D @ [''vm'']"
    by (simp only: components_append components_Join [OF pl]) (simp add: components_name)
  have "path_Clean (CHR ''/'' # (strings_Join D ''/'' @ CHR ''/'' # ''vm'')) =
      CHR ''/'' # strings_Join (D @ [''vm'']) ''/''"
    using Clean_rooted_plain [of "strings_Join D ''/'' @ CHR ''/'' # ''vm''"] assms(1)
    by (simp only: c) (simp add: plain_name_def)
  then show ?thesis by (simp add: filepath_Join_def)
qed

lemma full_path:
  assumes "\<forall>x\<in>set (D @ N). plain_name x" and "D \<noteq> []"
  shows "filepath_ToSlash (filepath_Join [CHR ''/'' # strings_Join (D @ [''vm'']) ''/'', strings_Join N ''/'']) =
     CHR ''/'' # strings_Join (D @ [''vm''] @ N) ''/''"
proof -
  have pl: "\<forall>x\<in>set (D @ [''vm'']). x \<noteq> [] \<and> CHR ''/'' \<notin> set x"
    using assms(1) by (auto simp: plain_name_def)
  have plN: "\<forall>x\<in>set N. x \<noteq> [] \<and> CHR ''/'' \<notin> set x"
    using assms(1) by (auto simp: plain_name_def)
  have c: "inventory_components (strings_Join (D @ [''vm'']) ''/'' @ CHR ''/'' # strings_Join N ''/'')
      = D @ [''vm''] @ N"
    by (simp only: components_append components_Join [OF pl] components_Join [OF plN]) simp
  have "path_Clean (CHR ''/'' # (strings_Join (D @ [''vm'']) ''/'' @ CHR ''/'' # strings_Join N ''/'')) =
      CHR ''/'' # strings_Join (D @ [''vm''] @ N) ''/''"
    using Clean_rooted_plain [of "strings_Join (D @ [''vm'']) ''/'' @ CHR ''/'' # strings_Join N ''/''"] assms(1)
    by (simp only: c) (auto simp: plain_name_def)
  then show ?thesis by (simp add: filepath_Join_def filepath_ToSlash_def)
qed

lemma createFolder_chain:
  assumes "finder_DatacenterOrDefault s (datacenter f) = (Inr dc, s1)"
    and "dc_ref dc \<noteq> []"
    and "\<forall>x\<in>set (dc_ref dc @ E @ M). plain_name x"
    and "path f = strings_Join (E @ M) ''/''"
    and "faults s = (\<lambda>c. None)"
    and "lookup s (dc_ref dc @ [''vm''] @ E) = Some Folder"
    and "\<forall>j. 0 < j \<and> j \<le> length M \<longrightarrow> lookup s (dc_ref dc @ [''vm''] @ E @ take j M) = None"
  shows "createFolder s f =
     (None, f,
      s\<lparr>nodes := nodes s @
          map (\<lambda>j. (dc_ref dc @ [''vm''] @ E @ take (Suc j) M, Folder)) [0..<length M],
        calls := calls s @ [DatacenterCall (datacenter f)] @
          map (\<lambda>j. FindByInventoryPathCall
                 (CHR ''/'' # strings_Join (dc_ref dc @ [''vm''] @ E @ take j M) ''/''))
            (rev [0..<Suc (length M)]) @
          map (\<lambda>j. CreateFolderCall (dc_ref dc @ [''vm''] @ E @ take j M) (M ! j)) [0..<length M]\<rparr>)"
proof -
  let ?D = "dc_ref dc"
  let ?R = "?D @ [''vm''] @ E"
  let ?finds = "map (\<lambda>j. FindByInventoryPathCall (CHR ''/'' # strings_Join (?R @ take j M) ''/''))
            (rev [0..<Suc (length M)])"
  have s1: "s1 = s\<lparr>calls := calls s @ [DatacenterCall (datacenter f)]\<rparr>"
    and ip: "dc_InventoryPath dc = CHR ''/'' # strings_Join ?D ''/''"
    using DatacenterOrDefault_result [OF assms(1)] by simp_all
  have plD: "\<forall>x\<in>set ?D. plain_name x" using assms(3) by auto
  have base: "filepath_Join [dc_InventoryPath dc, ''vm''] = CHR ''/'' # strings_Join (?D @ [''vm'']) ''/''"
    using base_path [OF plD assms(2)] ip by simp
  have p: "filepath_ToSlash (filepath_Join [CHR ''/'' # strings_Join (?D @ [''vm'']) ''/'', path f]) =
      CHR ''/'' # strings_Join (?R @ M) ''/''"
    using full_path [of ?D "E @ M"] assms(2,3,4) by simp
  have plR: "\<forall>x\<in>set (?R @ M). plain_name x"
    using assms(3) by (auto simp: plain_name_def)
  have fnd: "createFolder_find dc (CHR ''/'' # strings_Join (?D @ [''vm'']) ''/'')
       (CHR ''/'' # strings_Join (?R @ M) ''/'') [] s1 =
     (Inr (Reference ?R Folder, [] @ rev M), s1\<lparr>calls := calls s1 @ ?finds\<rparr>)"
  proof (rule find_chain [where D = ?D])
    show "\<forall>x\<in>set (?R @ M). plain_name x" by (rule plR)
    show "faults s1 = (\<lambda>c. None)" using assms(5) s1 by simp
    show "lookup s1 ?R = Some Folder" using assms(6) s1 by simp
    show "\<forall>j. 0 < j \<and> j \<le> length M \<longrightarrow> lookup s1 (?R @ take j M) = None"
      using assms(7) s1 by simp
    show "dc_InventoryPath dc = CHR ''/'' # strings_Join ?D ''/''" by (rule ip)
    show "\<forall>x\<in>set ?D. plain_name x" by (rule plD)
    show "length ?D < length ?R" by simp
  qed
  let ?s2 = "s1\<lparr>calls := calls s1 @ ?finds\<rparr>"
  let ?root = "\<lparr>fo_ref = ?R, fo_InventoryPath = []\<rparr>"
  have cre: "createFolder_create (Some ?root) M ?s2 =
     (None,
      ?s2\<lparr>nodes := nodes ?s2 @ map (\<lambda>j. (fo_ref ?root @ take (Suc j) M, Folder)) [0..<length M],
        calls := calls ?s2 @ map (\<lambda>j. CreateFolderCall (fo_ref ?root @ take j M) (M ! j)) [0..<length M]\<rparr>)"
  proof (rule create_chain)
    show "faults ?s2 = (\<lambda>c. None)" using assms(5) s1 by simp
    show "lookup ?s2 (fo_ref ?root) = Some Folder" using assms(6) s1 by simp
    show "\<forall>j. 0 < j \<and> j \<le> length M \<longrightarrow> lookup ?s2 (fo_ref ?root @ take j M) = None"
      using assms(7) s1 by simp
  qed
  have "createFolder s f =
     (case createFolder_find dc (CHR ''/'' # strings_Join (?D @ [''vm'']) ''/'')
             (CHR ''/'' # strings_Join (?R @ M) ''/'') [] s1 of
        (Inl e, s2) \<Rightarrow> (Some e, f, s2)
      | (Inr (r, folders), s2) \<Rightarrow>
          (case as_Folder (Some r) of
             Inl pn \<Rightarrow> (Some pn, f, s2)
           | Inr root \<Rightarrow>
               (case createFolder_create (Some root) (rev folders) s2 of (e, s3) \<Rightarrow> (e, f, s3))))"
    by (simp only: createFolder_def assms(1) Let_def base p prod.case sum.case)
  also have "\<dots> = (case createFolder_create (Some ?root) M ?s2 of (e, s3) \<Rightarrow> (e, f, s3))"
    by (simp only: fnd prod.case sum.case as_Folder_def option.case reference.case
          append_Nil rev_rev_ident if_True simp_thms)
  finally show ?thesis
    by (simp only: cre prod.case) (simp add: s1 del: upt_Suc)
qed

lemma prune_run:
  assumes "\<forall>x\<in>set (P @ M). plain_name x"
    and "\<forall>j. 0 < j \<and> j \<le> length M \<longrightarrow> strings_Join (P @ take j M) ''/'' \<noteq> existingPath f"
    and "B = inventory_components (datacenter f) @ [''vm'']"
    and "faults s = (\<lambda>c. None)"
    and "fo_ref fo = B @ P @ M"
    and "\<forall>j. 0 < j \<and> j \<le> length M \<longrightarrow> lookup s (B @ P @ take j M) = Some Folder"
    and "\<forall>(q, k)\<in>set (nodes s). \<forall>j. 0 < j \<and> j \<le> length M \<and> q \<noteq> [] \<and> butlast q = B @ P @ take j M
           \<longrightarrow> j < length M \<and> q = B @ P @ take (Suc j) M"
    and "lookup s (B @ P) = None \<or> lookup s (B @ P) = Some Folder"
  shows "\<exists>fo'. (lookup s (B @ P) = Some Folder \<longrightarrow> fo_ref fo' = B @ P) \<and>
     deleteFolder_loop f (strings_Join (P @ M) ''/'') fo s =
     deleteFolder_loop f (strings_Join P ''/'') fo'
      (s\<lparr>nodes := foldl (\<lambda>ns r. filter (\<lambda>(q, k). take (length r) q \<noteq> r) ns) (nodes s)
                   (map (\<lambda>j. B @ P @ take j M) (rev [1..<Suc (length M)])),
        calls := calls s @ concat (map (\<lambda>j.
           [ChildrenCall (B @ P @ take j M), DestroyCall (B @ P @ take j M),
            WaitCall (B @ P @ take j M),
            FindByInventoryPathCall (datacenter f @ ''/vm/'' @ strings_Join (P @ take (j - 1) M) ''/'')])
           (rev [1..<Suc (length M)]))\<rparr>)"
  using assms(1,2,4,5,6,7,8)
proof (induction M arbitrary: fo s rule: rev_induct)
  case Nil
  show ?case using Nil.prems(4) by (intro exI [of _ fo]) simp
next
  case (snoc m M)
  let ?r = "B @ P @ M @ [m]"
  let ?par = "strings_Join (P @ M) ''/''"
  let ?s' = "s\<lparr>nodes := filter (\<lambda>(q, k). take (length ?r) q \<noteq> ?r) (nodes s),
                calls := calls s @ [ChildrenCall ?r, DestroyCall ?r,
                  WaitCall ?r, FindByInventoryPathCall (datacenter f @ ''/vm/'' @ ?par)]\<rparr>"
  let ?pr = "B @ P @ M"
  let ?fo' = "if M = [] then (if lookup s ?pr = None then fo else \<lparr>fo_ref = ?pr, fo_InventoryPath = []\<rparr>)
              else \<lparr>fo_ref = ?pr, fo_InventoryPath = []\<rparr>"
  have pl: "\<forall>x\<in>set (P @ M @ [m]). x \<noteq> [] \<and> CHR ''/'' \<notin> set x"
    using snoc.prems(1) by (auto simp: plain_name_def)
  have plPM: "\<forall>x\<in>set (P @ M). x \<noteq> [] \<and> CHR ''/'' \<notin> set x" using pl by auto
  have plP: "\<forall>x\<in>set P. x \<noteq> [] \<and> CHR ''/'' \<notin> set x" using pl by auto
  have fo: "fo_ref fo = ?r" using snoc.prems(4) by simp
  have ne: "strings_Join (P @ M @ [m]) ''/'' \<noteq> existingPath f"
    using snoc.prems(2) [rule_format, of "Suc (length M)"] by simp
  have ex: "lookup s (fo_ref fo) = Some Folder"
    using snoc.prems(5) [rule_format, of "Suc (length M)"] fo by simp
  have nochild: "\<forall>(q, k)\<in>set (nodes s). q \<noteq> [] \<longrightarrow> butlast q \<noteq> fo_ref fo"
  proof (clarify)
    fix q k assume qk: "(q, k) \<in> set (nodes s)" "q \<noteq> []" "butlast q = fo_ref fo"
    have "Suc (length M) < length (M @ [m])"
      using snoc.prems(6) [rule_format, OF qk(1), simplified, rule_format, of "Suc (length M)"] qk(2,3) fo
      by simp
    then show False by simp
  qed
  have par: "?par = (if path_Dir (strings_Join (P @ M @ [m]) ''/'') = ''.'' then []
                     else path_Dir (strings_Join (P @ M @ [m]) ''/''))"
  proof -
    have "\<forall>x\<in>set ((P @ M) @ [m]). plain_name x" using snoc.prems(1) by simp
    from Dir_Join [OF this] show ?thesis by (simp only: append_assoc)
  qed
  have r: "?pr = inventory_components (datacenter f @ ''/vm/'' @ ?par)"
    by (simp only: components_vm components_Join [OF plPM] assms(3)) simp
  have keep: "\<And>x. length x < length ?r \<Longrightarrow> lookup ?s' x = lookup s x"
  proof -
    fix x :: ref assume "length x < length ?r"
    then have "take (length ?r) x \<noteq> ?r" by auto
    then show "lookup ?s' x = lookup s x"
      using lookup_destroyed [of ?r "nodes s" x] by (simp add: lookup_def)
  qed
  have lk: "lookup ?s' ?pr = lookup s ?pr" by (rule keep) simp
  have fo': "lookup ?s' ?pr = None \<and> ?fo' = fo \<or>
         lookup ?s' ?pr = Some Folder \<and> ?fo' = \<lparr>fo_ref = ?pr, fo_InventoryPath = []\<rparr>"
  proof (cases "M = []")
    case True
    then show ?thesis using snoc.prems(7) lk by auto
  next
    case False
    then have "lookup s ?pr = Some Folder"
      using snoc.prems(5) [rule_format, of "length M"] by simp
    then show ?thesis using False lk by simp
  qed
  have step: "deleteFolder_loop f (strings_Join (P @ M @ [m]) ''/'') fo s =
      deleteFolder_loop f ?par ?fo' ?s'"
  proof (rule loop_step [where kd = Folder and r = ?pr])
    show "strings_Join (P @ M @ [m]) ''/'' \<noteq> existingPath f" by (rule ne)
    show "faults s = (\<lambda>c. None)" by (rule snoc.prems(3))
    show "lookup s (fo_ref fo) = Some Folder" by (rule ex)
    show "\<forall>(q, k)\<in>set (nodes s). q \<noteq> [] \<longrightarrow> butlast q \<noteq> fo_ref fo" by (rule nochild)
    show "?par = (if path_Dir (strings_Join (P @ M @ [m]) ''/'') = ''.'' then []
                     else path_Dir (strings_Join (P @ M @ [m]) ''/''))" by (rule par)
    show "?s' = s\<lparr>nodes := filter (\<lambda>(q, k). take (length (fo_ref fo)) q \<noteq> fo_ref fo) (nodes s),
                calls := calls s @ [ChildrenCall (fo_ref fo), DestroyCall (fo_ref fo),
                  WaitCall (fo_ref fo), FindByInventoryPathCall (datacenter f @ ''/vm/'' @ ?par)]\<rparr>"
      by (simp only: fo)
    show "?pr = inventory_components (datacenter f @ ''/vm/'' @ ?par)" by (rule r)
    show "lookup ?s' ?pr = None \<and> ?fo' = fo \<or>
         lookup ?s' ?pr = Some Folder \<and> ?fo' = \<lparr>fo_ref = ?pr, fo_InventoryPath = []\<rparr>"
      by (rule fo')
  qed
  have up: "rev [1..<Suc (length (M @ [m]))] = Suc (length M) # rev [1..<Suc (length M)]"
    by simp
  have e1: "map (\<lambda>j. B @ P @ take j (M @ [m])) (rev [1..<Suc (length M)]) =
      map (\<lambda>j. B @ P @ take j M) (rev [1..<Suc (length M)])"
    by (rule map_cong [OF refl]) auto
  have e2: "map (\<lambda>j.
           [ChildrenCall (B @ P @ take j (M @ [m])), DestroyCall (B @ P @ take j (M @ [m])),
            WaitCall (B @ P @ take j (M @ [m])),
            FindByInventoryPathCall (datacenter f @ ''/vm/'' @ strings_Join (P @ take (j - 1) (M @ [m])) ''/'')])
           (rev [1..<Suc (length M)]) =
      map (\<lambda>j.
           [ChildrenCall (B @ P @ take j M), DestroyCall (B @ P @ take j M),
            WaitCall (B @ P @ take j M),
            FindByInventoryPathCall (datacenter f @ ''/vm/'' @ strings_Join (P @ take (j - 1) M) ''/'')])
           (rev [1..<Suc (length M)])"
    by (rule map_cong [OF refl]) auto
  show ?case
  proof (cases "M = []")
    case True
    have "lookup s (B @ P) = Some Folder \<longrightarrow> fo_ref ?fo' = B @ P"
      using True by simp
    moreover have "deleteFolder_loop f (strings_Join (P @ M @ [m]) ''/'') fo s =
        deleteFolder_loop f (strings_Join P ''/'') ?fo' ?s'"
      using step True by simp
    ultimately show ?thesis
      using True by (intro exI [of _ ?fo']) simp
  next
    case False
    have "\<exists>fo''. (lookup ?s' (B @ P) = Some Folder \<longrightarrow> fo_ref fo'' = B @ P) \<and>
       deleteFolder_loop f ?par ?fo' ?s' =
       deleteFolder_loop f (strings_Join P ''/'') fo''
        (?s'\<lparr>nodes := foldl (\<lambda>ns r. filter (\<lambda>(q, k). take (length r) q \<noteq> r) ns) (nodes ?s')
                   (map (\<lambda>j. B @ P @ take j M) (rev [1..<Suc (length M)])),
          calls := calls ?s' @ concat (map (\<lambda>j.
             [ChildrenCall (B @ P @ take j M), DestroyCall (B @ P @ take j M),
              WaitCall (B @ P @ take j M),
              FindByInventoryPathCall (datacenter f @ ''/vm/'' @ strings_Join (P @ take (j - 1) M) ''/'')])
             (rev [1..<Suc (length M)]))\<rparr>)"
    proof (rule snoc.IH)
      show "\<forall>x\<in>set (P @ M). plain_name x" using snoc.prems(1) by auto
      show "\<forall>j. 0 < j \<and> j \<le> length M \<longrightarrow> strings_Join (P @ take j M) ''/'' \<noteq> existingPath f"
      proof (intro allI impI)
        fix j assume j: "0 < j \<and> j \<le> length M"
        then show "strings_Join (P @ take j M) ''/'' \<noteq> existingPath f"
          using snoc.prems(2) [rule_format, of j] by simp
      qed
      show "faults ?s' = (\<lambda>c. None)" using snoc.prems(3) by simp
      show "fo_ref ?fo' = B @ P @ M" using False by simp
      show "\<forall>j. 0 < j \<and> j \<le> length M \<longrightarrow> lookup ?s' (B @ P @ take j M) = Some Folder"
      proof (intro allI impI)
        fix j assume j: "0 < j \<and> j \<le> length M"
        have "lookup ?s' (B @ P @ take j M) = lookup s (B @ P @ take j M)"
          by (rule keep) (use j in simp)
        then show "lookup ?s' (B @ P @ take j M) = Some Folder"
          using snoc.prems(5) [rule_format, of j] j by simp
      qed
      show "lookup ?s' (B @ P) = None \<or> lookup ?s' (B @ P) = Some Folder"
        using keep [of "B @ P"] snoc.prems(7) by simp
      show "\<forall>(q, k)\<in>set (nodes ?s'). \<forall>j. 0 < j \<and> j \<le> length M \<and> q \<noteq> [] \<and> butlast q = B @ P @ take j M
             \<longrightarrow> j < length M \<and> q = B @ P @ take (Suc j) M"
      proof (clarify)
        fix q k j
        assume qk: "(q, k) \<in> set (nodes ?s')" and j: "0 < j" "j \<le> length M"
          and q: "q \<noteq> []" "butlast q = B @ P @ take j M"
        have in_s: "(q, k) \<in> set (nodes s)" and notr: "take (length ?r) q \<noteq> ?r"
          using qk by auto
        have a: "j < length (M @ [m]) \<and> q = B @ P @ take (Suc j) (M @ [m])"
          using snoc.prems(6) [rule_format, OF in_s, simplified, rule_format, of j] j q by simp
        have "j \<noteq> length M"
        proof
          assume "j = length M"
          then have "q = ?r" using a by simp
          then show False using notr by simp
        qed
        then have "j < length M" using j by simp
        then show "j < length M \<and> q = B @ P @ take (Suc j) M" using a by simp
      qed
    qed
    then obtain fo'' where f1: "lookup ?s' (B @ P) = Some Folder \<longrightarrow> fo_ref fo'' = B @ P"
      and ih: "deleteFolder_loop f ?par ?fo' ?s' =
       deleteFolder_loop f (strings_Join P ''/'') fo''
        (?s'\<lparr>nodes := foldl (\<lambda>ns r. filter (\<lambda>(q, k). take (length r) q \<noteq> r) ns) (nodes ?s')
                   (map (\<lambda>j. B @ P @ take j M) (rev [1..<Suc (length M)])),
          calls := calls ?s' @ concat (map (\<lambda>j.
             [ChildrenCall (B @ P @ take j M), DestroyCall (B @ P @ take j M),
              WaitCall (B @ P @ take j M),
              FindByInventoryPathCall (datacenter f @ ''/vm/'' @ strings_Join (P @ take (j - 1) M) ''/'')])
             (rev [1..<Suc (length M)]))\<rparr>)"
      by blast
    have f2: "lookup s (B @ P) = Some Folder \<longrightarrow> fo_ref fo'' = B @ P"
      using f1 keep [of "B @ P"] by simp
    have "deleteFolder_loop f (strings_Join (P @ M @ [m]) ''/'') fo s =
       deleteFolder_loop f (strings_Join P ''/'') fo''
      (s\<lparr>nodes := foldl (\<lambda>ns r. filter (\<lambda>(q, k). take (length r) q \<noteq> r) ns) (nodes s)
                   (map (\<lambda>j. B @ P @ take j (M @ [m])) (rev [1..<Suc (length (M @ [m]))])),
        calls := calls s @ concat (map (\<lambda>j.
           [ChildrenCall (B @ P @ take j (M @ [m])), DestroyCall (B @ P @ take j (M @ [m])),
            WaitCall (B @ P @ take j (M @ [m])),
            FindByInventoryPathCall (datacenter f @ ''/vm/'' @ strings_Join (P @ take (j - 1) (M @ [m])) ''/'')])
           (rev [1..<Suc (length (M @ [m]))]))\<rparr>)"
      by (simp only: step ih up list.map foldl_Cons concat.simps e1 e2) simp
    then show ?thesis using f2 by (intro exI [of _ fo'']) simp
  qed
qed

lemma prune_chain:
  assumes "\<forall>x\<in>set (P @ M). plain_name x"
    and "existingPath f = strings_Join P ''/''"
    and "B = inventory_components (datacenter f) @ [''vm'']"
    and "faults s = (\<lambda>c. None)"
    and "fo_ref fo = B @ P @ M"
    and "\<forall>j. 0 < j \<and> j \<le> length M \<longrightarrow> lookup s (B @ P @ take j M) = Some Folder"
    and "\<forall>(q, k)\<in>set (nodes s). \<forall>j. 0 < j \<and> j \<le> length M \<and> q \<noteq> [] \<and> butlast q = B @ P @ take j M
           \<longrightarrow> j < length M \<and> q = B @ P @ take (Suc j) M"
    and "lookup s (B @ P) = None \<or> lookup s (B @ P) = Some Folder"
  shows "deleteFolder_loop f (strings_Join (P @ M) ''/'') fo s =
     (None,
      s\<lparr>nodes := foldl (\<lambda>ns r. filter (\<lambda>(q, k). take (length r) q \<noteq> r) ns) (nodes s)
                   (map (\<lambda>j. B @ P @ take j M) (rev [1..<Suc (length M)])),
        calls := calls s @ concat (map (\<lambda>j.
           [ChildrenCall (B @ P @ take j M), DestroyCall (B @ P @ take j M),
            WaitCall (B @ P @ take j M),
            FindByInventoryPathCall (datacenter f @ ''/vm/'' @ strings_Join (P @ take (j - 1) M) ''/'')])
           (rev [1..<Suc (length M)]))\<rparr>)"
proof -
  have pl: "\<forall>x\<in>set P. x \<noteq> [] \<and> CHR ''/'' \<notin> set x"
    using assms(1) by (auto simp: plain_name_def)
  have nb: "\<forall>j. 0 < j \<and> j \<le> length M \<longrightarrow> strings_Join (P @ take j M) ''/'' \<noteq> existingPath f"
  proof (intro allI impI notI)
    fix j assume j: "0 < j \<and> j \<le> length M" and e: "strings_Join (P @ take j M) ''/'' = existingPath f"
    have plj: "\<forall>x\<in>set (P @ take j M). x \<noteq> [] \<and> CHR ''/'' \<notin> set x"
      using assms(1) by (auto simp: plain_name_def dest: in_set_takeD)
    have "strings_Join (P @ take j M) ''/'' = strings_Join P ''/''" using e assms(2) by simp
    from Join_inject [OF plj pl this] have "take j M = []" by simp
    then show False using j by auto
  qed
  from prune_run [OF assms(1) nb assms(3-8)] show ?thesis
    by (auto simp only: assms(2) [symmetric] loop_exit)
qed

lemma deleteFolder_start:
  assumes "getDatacenter s (datacenter f) = (Inr dc, s1)"
    and "faults s = (\<lambda>c. None)"
    and "lookup s (inventory_components (datacenter f @ ''/vm/'' @ path f)) = Some Folder"
  shows "deleteFolder s f =
     (case deleteFolder_loop f (path f)
        \<lparr>fo_ref = inventory_components (datacenter f @ ''/vm/'' @ path f), fo_InventoryPath = []\<rparr>
        (s\<lparr>calls := calls s @ [DatacenterCall (datacenter f),
            FindByInventoryPathCall (datacenter f @ ''/vm/'' @ path f)]\<rparr>) of
        (e, s3) \<Rightarrow> (e, f, s3))"
proof -
  have s1: "s1 = s\<lparr>calls := calls s @ [DatacenterCall (datacenter f)]\<rparr>"
    using DatacenterOrDefault_result(1) [of s "datacenter f" dc s1] assms(1)
    by (simp add: getDatacenter_eq)
  have fnd: "FindByInventoryPath s1 (datacenter f @ ''/vm/'' @ path f) =
     (Inr (Some (Reference (inventory_components (datacenter f @ ''/vm/'' @ path f)) Folder)),
      s\<lparr>calls := calls s @ [DatacenterCall (datacenter f),
            FindByInventoryPathCall (datacenter f @ ''/vm/'' @ path f)]\<rparr>)"
  proof -
    have "inventory_components (datacenter f @ ''/vm/'' @ path f) \<noteq> []"
      by (simp only: components_vm) simp
    then show ?thesis
      using Find_result [of s1 "datacenter f @ ''/vm/'' @ path f"] assms(2,3) s1 by simp
  qed
  show ?thesis
    by (simp only: deleteFolder_def assms(1) fnd prod.case sum.case as_Folder_def option.case
        reference.case if_True simp_thms)
qed

lemma deleteFolder_found:
  assumes "getDatacenter s (datacenter f) = (Inr dc, s1)"
    and "faults s (FindByInventoryPathCall (datacenter f @ ''/vm/'' @ path f)) = None"
    and "lookup s (inventory_components (datacenter f @ ''/vm/'' @ path f)) = Some Folder"
  shows "deleteFolder s f =
     (case deleteFolder_loop f (path f)
        \<lparr>fo_ref = inventory_components (datacenter f @ ''/vm/'' @ path f), fo_InventoryPath = []\<rparr>
        (s\<lparr>calls := calls s @ [DatacenterCall (datacenter f),
            FindByInventoryPathCall (datacenter f @ ''/vm/'' @ path f)]\<rparr>) of
        (e, s3) \<Rightarrow> (e, f, s3))"
proof -
  have s1: "s1 = s\<lparr>calls := calls s @ [DatacenterCall (datacenter f)]\<rparr>"
    using DatacenterOrDefault_result(1) [of s "datacenter f" dc s1] assms(1)
    by (simp add: getDatacenter_eq)
  have fnd: "FindByInventoryPath s1 (datacenter f @ ''/vm/'' @ path f) =
     (Inr (Some (Reference (inventory_components (datacenter f @ ''/vm/'' @ path f)) Folder)),
      s\<lparr>calls := calls s @ [DatacenterCall (datacenter f),
            FindByInventoryPathCall (datacenter f @ ''/vm/'' @ path f)]\<rparr>)"
  proof -
    have "inventory_components (datacenter f @ ''/vm/'' @ path f) \<noteq> []"
      by (simp only: components_vm) simp
    then show ?thesis
      using Find_result [of s1 "datacenter f @ ''/vm/'' @ path f"] assms(2,3) s1 by simp
  qed
  show ?thesis
    by (simp only: deleteFolder_def assms(1) fnd prod.case sum.case as_Folder_def option.case
        reference.case if_True simp_thms)
qed

lemma fold_destroy_member:
  "x \<in> set (foldl (\<lambda>ns r. filter (\<lambda>(q, k). take (length r) q \<noteq> r) ns) ns rs) \<longleftrightarrow>
     x \<in> set ns \<and> (\<forall>r\<in>set rs. take (length r) (fst x) \<noteq> r)"
  by (induction rs arbitrary: ns) (auto split: prod.splits)

lemma fold_destroy_lookup:
  "map_of (foldl (\<lambda>ns r. filter (\<lambda>(q, k). take (length r) q \<noteq> r) ns) ns rs) x =
     (if \<forall>r\<in>set rs. take (length r) x \<noteq> r then map_of ns x else None)"
  by (induction rs arbitrary: ns) (auto simp: lookup_destroyed)

lemma getDatacenter_state:
  "snd (getDatacenter s n) = s\<lparr>calls := calls s @ [DatacenterCall n]\<rparr>"
  by (simp add: getDatacenter_def finder_Datacenter_def finder_DefaultDatacenter_def received_def
      Let_def split: option.splits list.splits prod.splits)

lemma Find_state:
  "snd (FindByInventoryPath s p) = s\<lparr>calls := calls s @ [FindByInventoryPathCall p]\<rparr>"
  by (simp add: FindByInventoryPath_def received_def Let_def split: option.splits)

lemma deleteFolder_at_boundary:
  assumes "existingPath f = path f"
  shows "snd (deleteFolder s f) = (f, s\<lparr>calls := calls s @ [DatacenterCall (datacenter f)]\<rparr>) \<or>
     snd (deleteFolder s f) = (f, s\<lparr>calls := calls s @ [DatacenterCall (datacenter f),
            FindByInventoryPathCall (datacenter f @ ''/vm/'' @ path f)]\<rparr>)"
proof -
  let ?s1 = "s\<lparr>calls := calls s @ [DatacenterCall (datacenter f)]\<rparr>"
  let ?s2 = "s\<lparr>calls := calls s @ [DatacenterCall (datacenter f),
            FindByInventoryPathCall (datacenter f @ ''/vm/'' @ path f)]\<rparr>"
  obtain r1 where g: "getDatacenter s (datacenter f) = (r1, ?s1)"
    using getDatacenter_state [of s "datacenter f"]
    by (cases "getDatacenter s (datacenter f)") simp
  show ?thesis
  proof (cases r1)
    case (Inl e)
    then show ?thesis using g by (simp add: deleteFolder_def)
  next
    case (Inr dc)
    obtain r2 where fnd: "FindByInventoryPath ?s1 (datacenter f @ ''/vm/'' @ path f) = (r2, ?s2)"
      using Find_state [of ?s1 "datacenter f @ ''/vm/'' @ path f"]
      by (cases "FindByInventoryPath ?s1 (datacenter f @ ''/vm/'' @ path f)") simp
    show ?thesis
    proof (cases r2)
      case (Inl e)
      then show ?thesis using g Inr fnd by (simp add: deleteFolder_def)
    next
      case ref: (Inr x)
      show ?thesis
      proof (cases "as_Folder x")
        case (Inl pn)
        then show ?thesis using g Inr fnd ref by (simp add: deleteFolder_def)
      next
        case fo: (Inr fo)
        have "deleteFolder_loop f (path f) fo ?s2 = (None, ?s2)"
          using loop_exit [of f fo ?s2] assms by simp
        then show ?thesis using g Inr fnd ref fo by (simp add: deleteFolder_def)
      qed
    qed
  qed
qed

lemma createFolder_keeps_record: "fst (snd (createFolder s f)) = f"
  by (simp add: createFolder_def Let_def split: prod.splits sum.splits option.splits)

lemma Read_keeps_existing_path:
  "d_existing_path (fst (snd (resourceVSphereFolderRead s d))) = d_existing_path d"
  by (simp add: resourceVSphereFolderRead_def split: prod.splits sum.splits option.splits)

lemma Create_stores_empty_existing_path:
  assumes "fst (resourceVSphereFolderCreate s d) = None"
  shows "d_existing_path (fst (snd (resourceVSphereFolderCreate s d))) = []"
proof -
  let ?f = "\<lparr>datacenter = d_datacenter d, existingPath = [],
             path = strings_TrimRight (d_path d) ''/''\<rparr>"
  obtain e f' s' where c: "createFolder s ?f = (e, f', s')"
    by (cases "createFolder s ?f") auto
  have f': "f' = ?f" using createFolder_keeps_record [of s ?f] c by simp
  show ?thesis
  proof (cases e)
    case None
    then show ?thesis
      using c f' by (simp add: resourceVSphereFolderCreate_def Read_keeps_existing_path)
  next
    case (Some x)
    then show ?thesis using c assms by (simp add: resourceVSphereFolderCreate_def)
  qed
qed

lemma create_never_reports:
  "fst (createFolder_create root names s) = None \<or>
   fst (createFolder_create root names s) = Some (Panic NilDereference)"
  by (induction names arbitrary: root s)
     (auto simp: Folder_CreateFolder_def Let_def split: option.splits prod.splits)

lemma TrimRight_plain: "plain_name c \<Longrightarrow> strings_TrimRight (x @ c) ''/'' = x @ c"
  by (cases c rule: rev_cases) (auto simp: strings_TrimRight_def plain_name_def)

lemma Read_state:
  "snd (snd (resourceVSphereFolderRead s d)) = s\<lparr>calls := calls s @ [DatacenterCall (d_datacenter d)]\<rparr> \<or>
   snd (snd (resourceVSphereFolderRead s d)) = s\<lparr>calls := calls s @ [DatacenterCall (d_datacenter d),
      FindByInventoryPathCall (d_datacenter d @ ''/vm/'' @ d_path d)]\<rparr>"
proof -
  let ?s1 = "s\<lparr>calls := calls s @ [DatacenterCall (d_datacenter d)]\<rparr>"
  let ?s2 = "s\<lparr>calls := calls s @ [DatacenterCall (d_datacenter d),
      FindByInventoryPathCall (d_datacenter d @ ''/vm/'' @ d_path d)]\<rparr>"
  obtain r1 where g: "getDatacenter s (d_datacenter d) = (r1, ?s1)"
    using getDatacenter_state [of s "d_datacenter d"]
    by (cases "getDatacenter s (d_datacenter d)") simp
  obtain r2 where fnd: "FindByInventoryPath ?s1 (d_datacenter d @ ''/vm/'' @ d_path d) = (r2, ?s2)"
    using Find_state [of ?s1 "d_datacenter d @ ''/vm/'' @ d_path d"]
    by (cases "FindByInventoryPath ?s1 (d_datacenter d @ ''/vm/'' @ d_path d)") simp
  show ?thesis
    using g fnd
    by (cases r1; cases r2) (auto simp: resourceVSphereFolderRead_def split: option.splits)
qed

lemma chain_refs_mem:
  "0 < j \<Longrightarrow> j \<le> length M \<Longrightarrow>
   B @ P @ take j M \<in> set (map (\<lambda>j. B @ P @ take j M) (rev [1..<Suc (length M)]))"
  by (simp only: set_map image_iff) (rule bexI [of _ j], rule refl, simp del: upt_Suc)

lemma chain_refs_elim:
  assumes "r \<in> set (map (\<lambda>j. B @ P @ take j M) (rev [1..<Suc (length M)]))"
  shows "\<exists>j. 0 < j \<and> j \<le> length M \<and> r = B @ P @ take j M"
proof -
  from assms have "\<exists>j\<in>set (rev [1..<Suc (length M)]). r = B @ P @ take j M"
    by (simp only: set_map image_iff)
  then obtain j where jm: "j \<in> set (rev [1..<Suc (length M)])" and r: "r = B @ P @ take j M"
    by blast
  have "0 < j \<and> j \<le> length M" using jm by (simp del: upt_Suc)
  then show ?thesis using r by blast
qed

lemma not_under_chain:
  assumes "length y \<le> Suc (length (B @ P))" and "y \<noteq> B @ P @ take 1 M"
  shows "\<forall>r\<in>set (map (\<lambda>j. B @ P @ take j M) (rev [1..<Suc (length M)])). take (length r) y \<noteq> r"
proof
  fix r assume "r \<in> set (map (\<lambda>j. B @ P @ take j M) (rev [1..<Suc (length M)]))"
  from chain_refs_elim [OF this] obtain j where j: "0 < j" "j \<le> length M" and r: "r = B @ P @ take j M"
    by blast
  show "take (length r) y \<noteq> r"
  proof (cases "j = 1")
    case True
    show ?thesis
    proof
      assume eq: "take (length r) y = r"
      have lr: "length r = Suc (length (B @ P))" using j r True by simp
      have "length (take (length r) y) = length r" using eq by simp
      then have "length r \<le> length y" by simp
      then have "take (length r) y = y" using assms(1) lr by simp
      then show False using eq assms(2) r True by simp
    qed
  next
    case False
    then have "length y < length r" using assms(1) j r by simp
    then show ?thesis by auto
  qed
qed

lemma leaf_components:
  assumes "\<forall>x\<in>set N. plain_name x"
  shows "inventory_components (n @ ''/vm/'' @ strings_Join N ''/'') =
     inventory_components n @ [''vm''] @ N"
proof -
  have "\<forall>x\<in>set N. x \<noteq> [] \<and> CHR ''/'' \<notin> set x"
    using assms by (auto simp: plain_name_def)
  from components_Join [OF this] show ?thesis by (simp only: components_vm)
qed

lemma Join_take_longer:
  assumes "\<forall>x\<in>set (P @ M). plain_name x" and "0 < j" and "j \<le> length M"
  shows "length (strings_Join (P @ take (j - 1) M) ''/'') < length (strings_Join (P @ take j M) ''/'')"
proof -
  have t: "take j M = take (j - 1) M @ [M ! (j - 1)]"
    using assms(2,3) take_Suc_conv_app_nth [of "j - 1" M] by simp
  have "M ! (j - 1) \<in> set M" using assms(2,3) by simp
  then have ne: "M ! (j - 1) \<noteq> []" using assms(1) by (auto simp: plain_name_def)
  show ?thesis
  proof (cases "P @ take (j - 1) M = []")
    case True
    have "P @ take j M = (P @ take (j - 1) M) @ [M ! (j - 1)]" using t by simp
    then have b: "P @ take j M = [M ! (j - 1)]" unfolding True by simp
    show ?thesis unfolding b True using ne by simp
  next
    case False
    have "strings_Join (P @ take j M) ''/'' =
        strings_Join (P @ take (j - 1) M) ''/'' @ ''/'' @ M ! (j - 1)"
      using Join_snoc [OF False, of "M ! (j - 1)" "''/''"] t by simp
    then show ?thesis by simp
  qed
qed

lemma count_iterations:
  "length (filter (\<lambda>c. \<exists>r. c = ChildrenCall r)
     (concat (map (\<lambda>j. [ChildrenCall (r j), DestroyCall (r j), WaitCall (r j),
        FindByInventoryPathCall (p j)]) js))) = length js"
  by (induction js) auto

lemma absent_below:
  assumes "tree_closed s" and "lookup s r = None"
  shows "lookup s (r @ xs) = None"
proof (induction xs rule: rev_induct)
  case Nil
  show ?case using assms(2) by simp
next
  case (snoc x xs)
  show ?case
  proof (rule ccontr)
    assume "lookup s (r @ xs @ [x]) \<noteq> None"
    then obtain k where "map_of (nodes s) (r @ xs @ [x]) = Some k"
      by (auto simp: lookup_def)
    then have "(r @ xs @ [x], k) \<in> set (nodes s)" by (rule map_of_SomeD)
    then have "lookup s (butlast (r @ xs @ [x])) \<noteq> None"
      using assms(1) by (auto simp: tree_closed_def)
    then show False using snoc by (simp add: butlast_append)
  qed
qed

lemma TrimRight_Join:
  assumes "\<forall>x\<in>set M. plain_name x"
  shows "strings_TrimRight (strings_Join M ''/'') ''/'' = strings_Join M ''/''"
proof (cases M rule: rev_cases)
  case Nil
  then show ?thesis by (simp add: strings_TrimRight_def)
next
  case (snoc xs x)
  then have px: "plain_name x" using assms by simp
  show ?thesis
  proof (cases "xs = []")
    case True
    then show ?thesis using snoc TrimRight_plain [OF px, of "[]"] by simp
  next
    case False
    then show ?thesis
      using snoc TrimRight_plain [OF px, of "strings_Join xs ''/'' @ ''/''"] by (simp add: Join_snoc)
  qed
qed

section \<open>The claims\<close>

subsection \<open>C1: the existing path recorded by Create\<close>

text \<open>
  Claim C1 says that after creating \<open>a/b/c\<close> where only \<open>a\<close> exists, the resource's
  \<open>existing_path\<close> is \<open>a\<close>. \<open>createFolder\<close> never assigns the \<open>existingPath\<close> field of
  the record it is given, so Create stores the empty string: in the example inventory the
  two folders are created and \<open>existing_path\<close> is empty.
\<close>

theorem create_existing_path_is_empty:
  "(case resourceVSphereFolderCreate example_inventory example_resource of
      (e, d, s) \<Rightarrow> (e, d, nodes s, calls s)) =
     (None,
      \<lparr>d_datacenter = ''dc1'', d_path = ''a/b/c'', d_existing_path = [], d_Id = ''dc1/a/b/c''\<rparr>,
      [([], Folder), ([''dc1''], Datacenter), ([''dc1'', ''vm''], Folder),
       ([''dc1'', ''vm'', ''a''], Folder), ([''dc1'', ''vm'', ''a'', ''b''], Folder),
       ([''dc1'', ''vm'', ''a'', ''b'', ''c''], Folder)],
      [DatacenterCall ''dc1'', FindByInventoryPathCall ''/dc1/vm/a/b/c'',
       FindByInventoryPathCall ''/dc1/vm/a/b'', FindByInventoryPathCall ''/dc1/vm/a'',
       CreateFolderCall [''dc1'', ''vm'', ''a''] ''b'',
       CreateFolderCall [''dc1'', ''vm'', ''a'', ''b''] ''c'',
       DatacenterCall ''dc1'', FindByInventoryPathCall ''dc1/vm/a/b/c''])"
  by code_simp

subsection \<open>C2: creation from the root to the leaf\<close>

text \<open>
  Claim C2: for a desired path \<open>a/b/c\<close> of which only \<open>a\<close> exists, Create issues exactly
  two create-child-folder calls, \<open>b\<close> under \<open>a\<close> and then \<open>c\<close> under the new \<open>b\<close>. The
  names are plain, the datacenter resolves and the service refuses nothing. The calls of
  Create are then the datacenter lookup, the lookups of \<open>a/b/c\<close>, \<open>a/b\<close> and \<open>a\<close> (leaf
  first), the two creations in the order root to leaf, and the lookups of the read-back;
  the inventory gains exactly the two folders.
\<close>

theorem create_root_to_leaf:
  assumes "plain_name a" and "plain_name b" and "plain_name c"
    and "d_path d = a @ ''/'' @ b @ ''/'' @ c"
    and "fst (finder_DatacenterOrDefault s (d_datacenter d)) = Inr dc"
    and "dc_ref dc \<noteq> []" and "\<forall>x\<in>set (dc_ref dc). plain_name x"
    and "faults s = (\<lambda>c. None)"
    and "vm = dc_ref dc @ [''vm'']"
    and "lookup s (vm @ [a]) = Some Folder"
    and "lookup s (vm @ [a, b]) = None"
    and "lookup s (vm @ [a, b, c]) = None"
    and "cs = [DatacenterCall (d_datacenter d),
        FindByInventoryPathCall (CHR ''/'' # strings_Join (vm @ [a, b, c]) ''/''),
        FindByInventoryPathCall (CHR ''/'' # strings_Join (vm @ [a, b]) ''/''),
        FindByInventoryPathCall (CHR ''/'' # strings_Join (vm @ [a]) ''/''),
        CreateFolderCall (vm @ [a]) b,
        CreateFolderCall (vm @ [a, b]) c]"
  shows "case resourceVSphereFolderCreate s d of
      (e, d', s') \<Rightarrow>
        nodes s' = nodes s @ [(vm @ [a, b], Folder), (vm @ [a, b, c], Folder)] \<and>
        (calls s' = calls s @ cs @ [DatacenterCall (d_datacenter d)] \<or>
         calls s' = calls s @ cs @ [DatacenterCall (d_datacenter d),
            FindByInventoryPathCall (d_datacenter d @ ''/vm/'' @ d_path d)])"
proof -
  let ?f = "\<lparr>datacenter = d_datacenter d, existingPath = [],
             path = strings_TrimRight (d_path d) ''/''\<rparr>"
  let ?s3 = "s\<lparr>nodes := nodes s @ [(vm @ [a, b], Folder), (vm @ [a, b, c], Folder)],
               calls := calls s @ cs\<rparr>"
  obtain s1 where dcr: "finder_DatacenterOrDefault s (datacenter ?f) = (Inr dc, s1)"
    using assms(5) by (cases "finder_DatacenterOrDefault s (d_datacenter d)") simp
  have pth: "path ?f = strings_Join ([a] @ [b, c]) ''/''"
    using TrimRight_plain [OF assms(3), of "a @ ''/'' @ b @ ''/''"] assms(4) by simp
  have pl: "\<forall>x\<in>set (dc_ref dc @ [a] @ [b, c]). plain_name x"
    using assms(1-3,7) by simp
  have ex: "lookup s (dc_ref dc @ [''vm''] @ [a]) = Some Folder"
    using assms(9,10) by simp
  have miss: "\<forall>j. 0 < j \<and> j \<le> length [b, c] \<longrightarrow>
      lookup s (dc_ref dc @ [''vm''] @ [a] @ take j [b, c]) = None"
  proof (intro allI impI)
    fix j :: nat assume "0 < j \<and> j \<le> length [b, c]"
    then have "j = 1 \<or> j = 2" by auto
    then show "lookup s (dc_ref dc @ [''vm''] @ [a] @ take j [b, c]) = None"
      using assms(9,11,12) by auto
  qed
  have cf: "createFolder s ?f = (None, ?f, ?s3)"
    using createFolder_chain [OF dcr assms(6) pl pth assms(8) ex miss] assms(9,13)
    by (simp add: numeral_2_eq_2)
  have cr: "resourceVSphereFolderCreate s d =
      resourceVSphereFolderRead ?s3 (d\<lparr>d_existing_path := [],
        d_Id := d_datacenter d @ ''/'' @ strings_TrimRight (d_path d) ''/''\<rparr>)"
    using cf by (simp add: resourceVSphereFolderCreate_def)
  show ?thesis
    using Read_state [of ?s3 "d\<lparr>d_existing_path := [],
        d_Id := d_datacenter d @ ''/'' @ strings_TrimRight (d_path d) ''/''\<rparr>"]
    unfolding cr
    by (cases "resourceVSphereFolderRead ?s3 (d\<lparr>d_existing_path := [],
        d_Id := d_datacenter d @ ''/'' @ strings_TrimRight (d_path d) ''/''\<rparr>)") auto
qed

theorem create_root_to_leaf_witness:
  "(case resourceVSphereFolderCreate example_inventory example_resource of
      (e, d', s') \<Rightarrow>
        nodes s' = nodes example_inventory @
          [([''dc1'', ''vm'', ''a'', ''b''], Folder), ([''dc1'', ''vm'', ''a'', ''b'', ''c''], Folder)] \<and>
        (calls s' =
           [DatacenterCall ''dc1'', FindByInventoryPathCall ''/dc1/vm/a/b/c'',
            FindByInventoryPathCall ''/dc1/vm/a/b'', FindByInventoryPathCall ''/dc1/vm/a'',
            CreateFolderCall [''dc1'', ''vm'', ''a''] ''b'',
            CreateFolderCall [''dc1'', ''vm'', ''a'', ''b''] ''c'',
            DatacenterCall ''dc1''] \<or>
         calls s' =
           [DatacenterCall ''dc1'', FindByInventoryPathCall ''/dc1/vm/a/b/c'',
            FindByInventoryPathCall ''/dc1/vm/a/b'', FindByInventoryPathCall ''/dc1/vm/a'',
            CreateFolderCall [''dc1'', ''vm'', ''a''] ''b'',
            CreateFolderCall [''dc1'', ''vm'', ''a'', ''b''] ''c'',
            DatacenterCall ''dc1'', FindByInventoryPathCall ''dc1/vm/a/b/c'']))"
proof -
  let ?vm = "[''dc1'', ''vm'']"
  let ?dc = "\<lparr>dc_ref = [''dc1''], dc_InventoryPath = ''/dc1''\<rparr>"
  have h1: "plain_name ''a''" and h2: "plain_name ''b''" and h3: "plain_name ''c''"
    by (simp_all add: plain_name_def)
  have h4: "d_path example_resource = ''a'' @ ''/'' @ ''b'' @ ''/'' @ ''c''"
    by (simp add: example_resource_def)
  have h5: "fst (finder_DatacenterOrDefault example_inventory (d_datacenter example_resource)) = Inr ?dc"
    by code_simp
  have h6: "dc_ref ?dc \<noteq> []" by simp
  have h7: "\<forall>x\<in>set (dc_ref ?dc). plain_name x" by (simp add: plain_name_def)
  have h8: "faults example_inventory = (\<lambda>c. None)" by (simp add: example_inventory_def)
  have h9: "?vm = dc_ref ?dc @ [''vm'']" by simp
  have h10: "lookup example_inventory (?vm @ [''a'']) = Some Folder" by code_simp
  have h11: "lookup example_inventory (?vm @ [''a'', ''b'']) = None" by code_simp
  have h12: "lookup example_inventory (?vm @ [''a'', ''b'', ''c'']) = None" by code_simp
  show ?thesis
    using create_root_to_leaf [OF h1 h2 h3 h4 h5 h6 h7 h8 h9 h10 h11 h12 refl]
    by (simp add: example_inventory_def example_resource_def)
qed

subsection \<open>C3: pruning child before parent, down to the boundary\<close>

text \<open>
  Claim C3: pruning \<open>a/b/c\<close> with the boundary \<open>a\<close>, where \<open>c\<close> is empty and \<open>b\<close> holds
  only \<open>c\<close>, destroys \<open>c\<close> and then \<open>b\<close>, and issues no children query and no destroy
  for \<open>a\<close> or for any folder above it. The calls of \<open>deleteFolder\<close> are given in full:
  the only folders queried for children or destroyed are \<open>c\<close> and \<open>b\<close>, in that order.
\<close>

theorem prune_child_before_parent:
  assumes "plain_name a" and "plain_name b" and "plain_name c"
    and "existingPath f = a" and "path f = a @ ''/'' @ b @ ''/'' @ c"
    and "fst (getDatacenter s (datacenter f)) = Inr dc"
    and "faults s = (\<lambda>c. None)"
    and "vm = inventory_components (datacenter f) @ [''vm'']"
    and "lookup s (vm @ [a]) = Some Folder"
    and "lookup s (vm @ [a, b]) = Some Folder"
    and "lookup s (vm @ [a, b, c]) = Some Folder"
    and "\<forall>(q, k)\<in>set (nodes s). q \<noteq> [] \<and> butlast q = vm @ [a, b] \<longrightarrow> q = vm @ [a, b, c]"
    and "\<forall>(q, k)\<in>set (nodes s). q \<noteq> [] \<longrightarrow> butlast q \<noteq> vm @ [a, b, c]"
    and "cs = [DatacenterCall (datacenter f),
        FindByInventoryPathCall (datacenter f @ ''/vm/'' @ a @ ''/'' @ b @ ''/'' @ c),
        ChildrenCall (vm @ [a, b, c]), DestroyCall (vm @ [a, b, c]), WaitCall (vm @ [a, b, c]),
        FindByInventoryPathCall (datacenter f @ ''/vm/'' @ a @ ''/'' @ b),
        ChildrenCall (vm @ [a, b]), DestroyCall (vm @ [a, b]), WaitCall (vm @ [a, b]),
        FindByInventoryPathCall (datacenter f @ ''/vm/'' @ a)]"
  shows "deleteFolder s f =
       (None, f,
        s\<lparr>nodes := filter (\<lambda>(q, k). take (length (vm @ [a, b])) q \<noteq> vm @ [a, b])
                    (filter (\<lambda>(q, k). take (length (vm @ [a, b, c])) q \<noteq> vm @ [a, b, c]) (nodes s)),
          calls := calls s @ cs\<rparr>) \<and>
     (\<forall>r. length r \<le> length (vm @ [a]) \<longrightarrow> ChildrenCall r \<notin> set cs \<and> DestroyCall r \<notin> set cs)"
proof -
  let ?P = "[a]" and ?M = "[b, c]"
  let ?s2 = "s\<lparr>calls := calls s @ [DatacenterCall (datacenter f),
            FindByInventoryPathCall (datacenter f @ ''/vm/'' @ path f)]\<rparr>"
  let ?fo = "\<lparr>fo_ref = inventory_components (datacenter f @ ''/vm/'' @ path f), fo_InventoryPath = []\<rparr>"
  have pl: "\<forall>x\<in>set (?P @ ?M). plain_name x" using assms(1-3) by simp
  have pth: "path f = strings_Join (?P @ ?M) ''/''" using assms(5) by simp
  obtain s1 where g: "getDatacenter s (datacenter f) = (Inr dc, s1)"
    using assms(6) by (cases "getDatacenter s (datacenter f)") simp
  have comps: "inventory_components (datacenter f @ ''/vm/'' @ path f) = vm @ ?P @ ?M"
    using leaf_components [OF pl, of "datacenter f"] pth assms(8) by simp
  have start: "deleteFolder s f =
     (case deleteFolder_loop f (strings_Join (?P @ ?M) ''/'') ?fo ?s2 of (e, s3) \<Rightarrow> (e, f, s3))"
    using deleteFolder_start [OF g assms(7)] assms(11) comps pth by simp
  have cases_j: "\<And>j::nat. 0 < j \<and> j \<le> length ?M \<Longrightarrow> j = 1 \<or> j = 2" by auto
  have chain: "deleteFolder_loop f (strings_Join (?P @ ?M) ''/'') ?fo ?s2 =
     (None,
      ?s2\<lparr>nodes := foldl (\<lambda>ns r. filter (\<lambda>(q, k). take (length r) q \<noteq> r) ns) (nodes ?s2)
                   (map (\<lambda>j. vm @ ?P @ take j ?M) (rev [1..<Suc (length ?M)])),
        calls := calls ?s2 @ concat (map (\<lambda>j.
           [ChildrenCall (vm @ ?P @ take j ?M), DestroyCall (vm @ ?P @ take j ?M),
            WaitCall (vm @ ?P @ take j ?M),
            FindByInventoryPathCall (datacenter f @ ''/vm/'' @ strings_Join (?P @ take (j - 1) ?M) ''/'')])
           (rev [1..<Suc (length ?M)]))\<rparr>)"
  proof (rule prune_chain [OF pl])
    show "existingPath f = strings_Join ?P ''/''" using assms(4) by simp
    show "vm = inventory_components (datacenter f) @ [''vm'']" by (rule assms(8))
    show "faults ?s2 = (\<lambda>c. None)" using assms(7) by simp
    show "fo_ref ?fo = vm @ ?P @ ?M" using comps by simp
    show "\<forall>j. 0 < j \<and> j \<le> length ?M \<longrightarrow> lookup ?s2 (vm @ ?P @ take j ?M) = Some Folder"
    proof (intro allI impI)
      fix j :: nat assume "0 < j \<and> j \<le> length ?M"
      from cases_j [OF this] show "lookup ?s2 (vm @ ?P @ take j ?M) = Some Folder"
      proof
        assume "j = 1" then show ?thesis using assms(10) by simp
      next
        assume "j = 2" then show ?thesis using assms(11) by simp
      qed
    qed
    show "\<forall>(q, k)\<in>set (nodes ?s2). \<forall>j. 0 < j \<and> j \<le> length ?M \<and> q \<noteq> [] \<and>
        butlast q = vm @ ?P @ take j ?M \<longrightarrow> j < length ?M \<and> q = vm @ ?P @ take (Suc j) ?M"
    proof (clarify)
      fix q k j assume qk: "(q, k) \<in> set (nodes ?s2)" and j: "0 < j" "j \<le> length ?M"
        and q: "q \<noteq> []" "butlast q = vm @ ?P @ take j ?M"
      have in_s: "(q, k) \<in> set (nodes s)" using qk by simp
      from cases_j [of j] j have "j = 1 \<or> j = 2" by simp
      then show "j < length ?M \<and> q = vm @ ?P @ take (Suc j) ?M"
      proof
        assume j1: "j = 1"
        then have "q = vm @ [a, b, c]" using assms(12) in_s q by auto
        then show ?thesis using j1 by simp
      next
        assume j2: "j = 2"
        then have False using assms(13) in_s q by auto
        then show ?thesis ..
      qed
    qed
    show "lookup ?s2 (vm @ ?P) = None \<or> lookup ?s2 (vm @ ?P) = Some Folder"
      using assms(9) by simp
  qed
  have res: "deleteFolder s f =
       (None, f,
        s\<lparr>nodes := filter (\<lambda>(q, k). take (length (vm @ [a, b])) q \<noteq> vm @ [a, b])
                    (filter (\<lambda>(q, k). take (length (vm @ [a, b, c])) q \<noteq> vm @ [a, b, c]) (nodes s)),
          calls := calls s @ cs\<rparr>)"
    unfolding start chain using assms(5,14) by (simp add: numeral_2_eq_2)
  have "\<forall>r. length r \<le> length (vm @ [a]) \<longrightarrow> ChildrenCall r \<notin> set cs \<and> DestroyCall r \<notin> set cs"
    using assms(14) by auto
  then show ?thesis using res by simp
qed

theorem prune_child_before_parent_witness:
  "(case deleteFolder example_created example_folder of (e, f, s) \<Rightarrow> (e, f, nodes s, calls s)) =
     (None, example_folder,
      [([], Folder), ([''dc1''], Datacenter), ([''dc1'', ''vm''], Folder),
       ([''dc1'', ''vm'', ''a''], Folder)],
      [DatacenterCall ''dc1'', FindByInventoryPathCall ''dc1/vm/a/b/c'',
       ChildrenCall [''dc1'', ''vm'', ''a'', ''b'', ''c''],
       DestroyCall [''dc1'', ''vm'', ''a'', ''b'', ''c''],
       WaitCall [''dc1'', ''vm'', ''a'', ''b'', ''c''],
       FindByInventoryPathCall ''dc1/vm/a/b'',
       ChildrenCall [''dc1'', ''vm'', ''a'', ''b''],
       DestroyCall [''dc1'', ''vm'', ''a'', ''b''],
       WaitCall [''dc1'', ''vm'', ''a'', ''b''],
       FindByInventoryPathCall ''dc1/vm/a''])"
proof -
  let ?vm = "[''dc1'', ''vm'']"
  have h1: "plain_name ''a''" and h2: "plain_name ''b''" and h3: "plain_name ''c''"
    by (simp_all add: plain_name_def)
  have h4: "existingPath example_folder = ''a''" by (simp add: example_folder_def)
  have h5: "path example_folder = ''a'' @ ''/'' @ ''b'' @ ''/'' @ ''c''"
    by (simp add: example_folder_def)
  have h6: "fst (getDatacenter example_created (datacenter example_folder)) =
      Inr \<lparr>dc_ref = [''dc1''], dc_InventoryPath = ''/dc1''\<rparr>" by code_simp
  have h7: "faults example_created = (\<lambda>c. None)" by (simp add: example_created_def)
  have h8: "?vm = inventory_components (datacenter example_folder) @ [''vm'']" by code_simp
  have h9: "lookup example_created (?vm @ [''a'']) = Some Folder" by code_simp
  have h10: "lookup example_created (?vm @ [''a'', ''b'']) = Some Folder" by code_simp
  have h11: "lookup example_created (?vm @ [''a'', ''b'', ''c'']) = Some Folder" by code_simp
  have h12: "\<forall>(q, k)\<in>set (nodes example_created). q \<noteq> [] \<and> butlast q = ?vm @ [''a'', ''b'']
      \<longrightarrow> q = ?vm @ [''a'', ''b'', ''c'']"
    by (simp add: example_created_def)
  have h13: "\<forall>(q, k)\<in>set (nodes example_created). q \<noteq> [] \<longrightarrow> butlast q \<noteq> ?vm @ [''a'', ''b'', ''c'']"
    by (simp add: example_created_def)
  from prune_child_before_parent [OF h1 h2 h3 h4 h5 h6 h7 h8 h9 h10 h11 h12 h13 refl]
  show ?thesis
    by (simp add: example_created_def example_folder_def)
qed

subsection \<open>C4: a folder that is not empty\<close>

text \<open>
  Claim C4: a prune that reaches a folder with a child fails there with the non-empty
  error and destroys neither the folder nor its children; what was destroyed before stays
  destroyed, and nothing is retried. Here \<open>P\<close> names the segments down to the folder
  with the child \<open>x\<close> and \<open>M\<close> the segments below it, each an empty folder when it is
  reached; the boundary is not met on the way. \<open>deleteFolder\<close> destroys the folders of
  \<open>M\<close> from the leaf upwards, asks the folder at \<open>P\<close> for its children once and returns
  the error naming its path; that folder and \<open>x\<close> are still in the inventory and the
  folders of \<open>M\<close> are gone.
\<close>

theorem prune_nonempty_aborts:
  assumes "\<forall>x\<in>set (P @ M). plain_name x"
    and "path f = strings_Join (P @ M) ''/''"
    and "\<forall>j. j \<le> length M \<longrightarrow> strings_Join (P @ take j M) ''/'' \<noteq> existingPath f"
    and "fst (getDatacenter s (datacenter f)) = Inr dc"
    and "faults s = (\<lambda>c. None)"
    and "B = inventory_components (datacenter f) @ [''vm'']"
    and "\<forall>j. j \<le> length M \<longrightarrow> lookup s (B @ P @ take j M) = Some Folder"
    and "\<forall>(q, k)\<in>set (nodes s). \<forall>j. 0 < j \<and> j \<le> length M \<and> q \<noteq> [] \<and> butlast q = B @ P @ take j M
           \<longrightarrow> j < length M \<and> q = B @ P @ take (Suc j) M"
    and "(x, kx) \<in> set (nodes s)" and "x \<noteq> []" and "butlast x = B @ P"
    and "x \<noteq> B @ P @ take 1 M"
    and "s' = s\<lparr>nodes := foldl (\<lambda>ns r. filter (\<lambda>(q, k). take (length r) q \<noteq> r) ns) (nodes s)
                   (map (\<lambda>j. B @ P @ take j M) (rev [1..<Suc (length M)])),
        calls := calls s @
          [DatacenterCall (datacenter f),
           FindByInventoryPathCall (datacenter f @ ''/vm/'' @ strings_Join (P @ M) ''/'')] @
          concat (map (\<lambda>j.
           [ChildrenCall (B @ P @ take j M), DestroyCall (B @ P @ take j M),
            WaitCall (B @ P @ take j M),
            FindByInventoryPathCall (datacenter f @ ''/vm/'' @ strings_Join (P @ take (j - 1) M) ''/'')])
           (rev [1..<Suc (length M)])) @
          [ChildrenCall (B @ P)]\<rparr>"
  shows "deleteFolder s f =
       (Some (Error (''Folder '' @ strings_Join P ''/'' @ '' is non-empty and will not be deleted'')),
        f, s') \<and>
     lookup s' (B @ P) = Some Folder \<and> (x, kx) \<in> set (nodes s') \<and>
     (\<forall>j. 0 < j \<and> j \<le> length M \<longrightarrow> lookup s' (B @ P @ take j M) = None)"
proof -
  let ?s2 = "s\<lparr>calls := calls s @ [DatacenterCall (datacenter f),
            FindByInventoryPathCall (datacenter f @ ''/vm/'' @ path f)]\<rparr>"
  let ?fo = "\<lparr>fo_ref = inventory_components (datacenter f @ ''/vm/'' @ path f), fo_InventoryPath = []\<rparr>"
  let ?rs = "map (\<lambda>j. B @ P @ take j M) (rev [1..<Suc (length M)])"
  let ?s3 = "?s2\<lparr>nodes := foldl (\<lambda>ns r. filter (\<lambda>(q, k). take (length r) q \<noteq> r) ns) (nodes ?s2) ?rs,
        calls := calls ?s2 @ concat (map (\<lambda>j.
           [ChildrenCall (B @ P @ take j M), DestroyCall (B @ P @ take j M),
            WaitCall (B @ P @ take j M),
            FindByInventoryPathCall (datacenter f @ ''/vm/'' @ strings_Join (P @ take (j - 1) M) ''/'')])
           (rev [1..<Suc (length M)]))\<rparr>"
  obtain s1 where g: "getDatacenter s (datacenter f) = (Inr dc, s1)"
    using assms(4) by (cases "getDatacenter s (datacenter f)") simp
  have comps: "inventory_components (datacenter f @ ''/vm/'' @ path f) = B @ P @ M"
    using leaf_components [OF assms(1), of "datacenter f"] assms(2,6) by simp
  have leaf: "lookup s (B @ P @ M) = Some Folder"
    using assms(7) [rule_format, of "length M"] by simp
  have start: "deleteFolder s f =
     (case deleteFolder_loop f (path f) ?fo ?s2 of (e, s3) \<Rightarrow> (e, f, s3))"
    using deleteFolder_start [OF g assms(5)] leaf comps by simp
  have run: "\<exists>fo'. (lookup ?s2 (B @ P) = Some Folder \<longrightarrow> fo_ref fo' = B @ P) \<and>
     deleteFolder_loop f (strings_Join (P @ M) ''/'') ?fo ?s2 =
     deleteFolder_loop f (strings_Join P ''/'') fo' ?s3"
  proof (rule prune_run [OF assms(1)])
    show "\<forall>j. 0 < j \<and> j \<le> length M \<longrightarrow> strings_Join (P @ take j M) ''/'' \<noteq> existingPath f"
      using assms(3) by simp
    show "B = inventory_components (datacenter f) @ [''vm'']" by (rule assms(6))
    show "faults ?s2 = (\<lambda>c. None)" using assms(5) by simp
    show "fo_ref ?fo = B @ P @ M" using comps by simp
    show "\<forall>j. 0 < j \<and> j \<le> length M \<longrightarrow> lookup ?s2 (B @ P @ take j M) = Some Folder"
      using assms(7) by simp
    show "\<forall>(q, k)\<in>set (nodes ?s2). \<forall>j. 0 < j \<and> j \<le> length M \<and> q \<noteq> [] \<and> butlast q = B @ P @ take j M
           \<longrightarrow> j < length M \<and> q = B @ P @ take (Suc j) M"
      using assms(8) by simp
    show "lookup ?s2 (B @ P) = None \<or> lookup ?s2 (B @ P) = Some Folder"
      using assms(7) [rule_format, of 0] by simp
  qed
  have bp: "lookup s (B @ P) = Some Folder" using assms(7) [rule_format, of 0] by simp
  from run bp obtain fo' where fo': "fo_ref fo' = B @ P"
    and loop: "deleteFolder_loop f (strings_Join (P @ M) ''/'') ?fo ?s2 =
       deleteFolder_loop f (strings_Join P ''/'') fo' ?s3"
    by auto
  have notunder: "\<And>y. length y \<le> Suc (length (B @ P)) \<Longrightarrow> y \<noteq> B @ P @ take 1 M \<Longrightarrow>
      \<forall>r\<in>set ?rs. take (length r) y \<noteq> r"
    by (rule not_under_chain)
  have keepx: "(x, kx) \<in> set (nodes ?s3)"
  proof -
    have "length (butlast x) = length (B @ P)" using assms(11) by simp
    then have "length x \<le> Suc (length (B @ P))" by simp
    from notunder [OF this assms(12)] show ?thesis
      using assms(9) by (simp add: fold_destroy_member del: upt_Suc)
  qed
  have keepbp: "lookup ?s3 (B @ P) = Some Folder"
  proof -
    have a: "\<forall>r\<in>set ?rs. take (length r) (B @ P) \<noteq> r"
    proof (cases "M = []")
      case True
      then show ?thesis by simp
    next
      case False
      then have "B @ P \<noteq> B @ P @ take 1 M" by (cases M) auto
      then show ?thesis using notunder [of "B @ P"] by simp
    qed
    have eq: "lookup ?s3 (B @ P) =
      (if \<forall>r\<in>set ?rs. take (length r) (B @ P) \<noteq> r then map_of (nodes s) (B @ P) else None)"
      by (simp add: lookup_def fold_destroy_lookup del: upt_Suc)
    show ?thesis unfolding eq if_P [OF a] using bp by (simp only: lookup_def)
  qed
  have gone: "\<forall>j. 0 < j \<and> j \<le> length M \<longrightarrow> lookup ?s3 (B @ P @ take j M) = None"
  proof (intro allI impI)
    fix j assume j: "0 < j \<and> j \<le> length M"
    then have mem: "B @ P @ take j M \<in> set ?rs" by (simp only: chain_refs_mem)
    have a: "\<not> (\<forall>r\<in>set ?rs. take (length r) (B @ P @ take j M) \<noteq> r)"
    proof
      assume "\<forall>r\<in>set ?rs. take (length r) (B @ P @ take j M) \<noteq> r"
      from bspec [OF this mem] show False by (simp only: take_all [OF order_refl] simp_thms)
    qed
    have eq: "lookup ?s3 (B @ P @ take j M) =
      (if \<forall>r\<in>set ?rs. take (length r) (B @ P @ take j M) \<noteq> r
       then map_of (nodes s) (B @ P @ take j M) else None)"
      by (simp add: lookup_def fold_destroy_lookup del: upt_Suc)
    show "lookup ?s3 (B @ P @ take j M) = None" unfolding eq if_not_P [OF a] by (rule refl)
  qed
  have ne: "strings_Join P ''/'' \<noteq> existingPath f"
    using assms(3) [rule_format, of 0] by simp
  have stop: "deleteFolder_loop f (strings_Join P ''/'') fo' ?s3 =
     (Some (Error (''Folder '' @ strings_Join P ''/'' @ '' is non-empty and will not be deleted'')),
      ?s3\<lparr>calls := calls ?s3 @ [ChildrenCall (fo_ref fo')]\<rparr>)"
  proof (rule loop_nonempty [OF ne])
    show "faults ?s3 (ChildrenCall (fo_ref fo')) = None" using assms(5) by simp
    show "lookup ?s3 (fo_ref fo') = Some Folder" using keepbp fo' by simp
    show "(x, kx) \<in> set (nodes ?s3)" by (rule keepx)
    show "x \<noteq> []" by (rule assms(10))
    show "butlast x = fo_ref fo'" using assms(11) fo' by simp
  qed
  have s': "s' = ?s3\<lparr>calls := calls ?s3 @ [ChildrenCall (fo_ref fo')]\<rparr>"
    using assms(2,13) fo' by simp
  have res: "deleteFolder s f =
       (Some (Error (''Folder '' @ strings_Join P ''/'' @ '' is non-empty and will not be deleted'')),
        f, s')"
  proof -
    have "deleteFolder s f =
      (case deleteFolder_loop f (strings_Join (P @ M) ''/'') ?fo ?s2 of (e, s3) \<Rightarrow> (e, f, s3))"
      using start assms(2) by simp
    then show ?thesis by (simp only: loop stop s' prod.case)
  qed
  have "lookup s' (B @ P) = Some Folder" using keepbp s' by simp
  moreover have "(x, kx) \<in> set (nodes s')" using keepx s' by simp
  moreover have "\<forall>j. 0 < j \<and> j \<le> length M \<longrightarrow> lookup s' (B @ P @ take j M) = None"
    using gone s' by simp
  ultimately show ?thesis using res by simp
qed

theorem prune_nonempty_aborts_witness:
  "(case deleteFolder example_shared example_folder of (e, f, s) \<Rightarrow> (e, f, nodes s, calls s)) =
     (Some (Error ''Folder a/b is non-empty and will not be deleted''), example_folder,
      [([], Folder), ([''dc1''], Datacenter), ([''dc1'', ''vm''], Folder),
       ([''dc1'', ''vm'', ''a''], Folder), ([''dc1'', ''vm'', ''a'', ''b''], Folder),
       ([''dc1'', ''vm'', ''a'', ''b'', ''x''], Other)],
      [DatacenterCall ''dc1'', FindByInventoryPathCall ''dc1/vm/a/b/c'',
       ChildrenCall [''dc1'', ''vm'', ''a'', ''b'', ''c''],
       DestroyCall [''dc1'', ''vm'', ''a'', ''b'', ''c''],
       WaitCall [''dc1'', ''vm'', ''a'', ''b'', ''c''],
       FindByInventoryPathCall ''dc1/vm/a/b'',
       ChildrenCall [''dc1'', ''vm'', ''a'', ''b'']])"
proof -
  let ?P = "[''a'', ''b'']" and ?M = "[''c'']" and ?B = "[''dc1'', ''vm'']"
  let ?x = "[''dc1'', ''vm'', ''a'', ''b'', ''x'']"
  let ?s' = "example_shared\<lparr>nodes := foldl (\<lambda>ns r. filter (\<lambda>(q, k). take (length r) q \<noteq> r) ns)
                   (nodes example_shared)
                   (map (\<lambda>j. ?B @ ?P @ take j ?M) (rev [1..<Suc (length ?M)])),
        calls := calls example_shared @
          [DatacenterCall (datacenter example_folder),
           FindByInventoryPathCall (datacenter example_folder @ ''/vm/'' @ strings_Join (?P @ ?M) ''/'')] @
          concat (map (\<lambda>j.
           [ChildrenCall (?B @ ?P @ take j ?M), DestroyCall (?B @ ?P @ take j ?M),
            WaitCall (?B @ ?P @ take j ?M),
            FindByInventoryPathCall (datacenter example_folder @ ''/vm/'' @
              strings_Join (?P @ take (j - 1) ?M) ''/'')])
           (rev [1..<Suc (length ?M)])) @
          [ChildrenCall (?B @ ?P)]\<rparr>"
  have cases_j: "\<And>j::nat. j \<le> length ?M \<Longrightarrow> j = 0 \<or> j = 1" by auto
  have h1: "\<forall>x\<in>set (?P @ ?M). plain_name x" by (simp add: plain_name_def)
  have h2: "path example_folder = strings_Join (?P @ ?M) ''/''" by (simp add: example_folder_def)
  have h3: "\<forall>j. j \<le> length ?M \<longrightarrow> strings_Join (?P @ take j ?M) ''/'' \<noteq> existingPath example_folder"
    using cases_j by (auto simp: example_folder_def)
  have h4: "fst (getDatacenter example_shared (datacenter example_folder)) =
      Inr \<lparr>dc_ref = [''dc1''], dc_InventoryPath = ''/dc1''\<rparr>" by code_simp
  have h5: "faults example_shared = (\<lambda>c. None)" by (simp add: example_shared_def)
  have h6: "?B = inventory_components (datacenter example_folder) @ [''vm'']" by code_simp
  have l0: "lookup example_shared (?B @ ?P) = Some Folder" by code_simp
  have l1: "lookup example_shared (?B @ ?P @ ?M) = Some Folder" by code_simp
  have h7: "\<forall>j. j \<le> length ?M \<longrightarrow> lookup example_shared (?B @ ?P @ take j ?M) = Some Folder"
  proof (intro allI impI)
    fix j :: nat assume "j \<le> length ?M"
    from cases_j [OF this] show "lookup example_shared (?B @ ?P @ take j ?M) = Some Folder"
    proof
      assume "j = 0" then show ?thesis using l0 by simp
    next
      assume "j = 1" then show ?thesis using l1 by simp
    qed
  qed
  have h8: "\<forall>(q, k)\<in>set (nodes example_shared). \<forall>j. 0 < j \<and> j \<le> length ?M \<and> q \<noteq> [] \<and>
        butlast q = ?B @ ?P @ take j ?M \<longrightarrow> j < length ?M \<and> q = ?B @ ?P @ take (Suc j) ?M"
    by (auto simp: example_shared_def)
  have h9: "(?x, Other) \<in> set (nodes example_shared)" by (simp add: example_shared_def)
  have h10: "?x \<noteq> []" by simp
  have h11: "butlast ?x = ?B @ ?P" by simp
  have h12: "?x \<noteq> ?B @ ?P @ take 1 ?M" by simp
  have "deleteFolder example_shared example_folder =
       (Some (Error (''Folder '' @ strings_Join ?P ''/'' @ '' is non-empty and will not be deleted'')),
        example_folder, ?s')"
    using prune_nonempty_aborts [OF h1 h2 h3 h4 h5 h6 h7 h8 h9 h10 h11 h12 refl] by (rule conjunct1)
  then show ?thesis
    by (simp add: example_shared_def example_folder_def)
qed

subsection \<open>C5: Delete when nothing was created\<close>

text \<open>
  Claim C5: when the recorded existing path equals the path, the loop of \<open>deleteFolder\<close>
  is not entered and Delete changes nothing in the inventory, only clearing the identity.
  Whatever the inventory, Delete leaves the nodes as they are and issues only the
  datacenter lookup and at most the lookup of the leaf (no children query, no destroy, no
  create); it clears the identity when it succeeds and leaves the resource data alone when
  it fails. When the datacenter resolves, the service answers the lookup of the leaf and
  the leaf is a folder, Delete succeeds: its result is the resource data with the identity
  cleared and the inventory with the two lookups added to the calls.
\<close>

theorem delete_at_boundary_is_noop:
  assumes "d_existing_path d = strings_TrimRight (d_path d) ''/''"
    and "p = d_datacenter d @ ''/vm/'' @ strings_TrimRight (d_path d) ''/''"
  shows "(case resourceVSphereFolderDelete s d of
      (e, d', s') \<Rightarrow>
        nodes s' = nodes s \<and>
        (calls s' = calls s @ [DatacenterCall (d_datacenter d)] \<or>
         calls s' = calls s @ [DatacenterCall (d_datacenter d), FindByInventoryPathCall p]) \<and>
        (e = None \<longrightarrow> d' = d\<lparr>d_Id := []\<rparr>) \<and> (e \<noteq> None \<longrightarrow> d' = d)) \<and>
     ((\<exists>dc. fst (getDatacenter s (d_datacenter d)) = Inr dc) \<and>
      faults s (FindByInventoryPathCall p) = None \<and>
      lookup s (inventory_components p) = Some Folder \<longrightarrow>
      resourceVSphereFolderDelete s d =
        (None, d\<lparr>d_Id := []\<rparr>,
         s\<lparr>calls := calls s @ [DatacenterCall (d_datacenter d), FindByInventoryPathCall p]\<rparr>))"
proof -
  let ?f = "\<lparr>datacenter = d_datacenter d, existingPath = d_existing_path d,
                path = strings_TrimRight (d_path d) ''/''\<rparr>"
  let ?s2 = "s\<lparr>calls := calls s @ [DatacenterCall (d_datacenter d), FindByInventoryPathCall p]\<rparr>"
  have eq: "existingPath ?f = path ?f" using assms(1) by simp
  from deleteFolder_at_boundary [OF eq, of s]
  obtain e s' where r: "deleteFolder s ?f = (e, ?f, s')"
    and s': "s' = s\<lparr>calls := calls s @ [DatacenterCall (d_datacenter d)]\<rparr> \<or> s' = ?s2"
    using assms(2) by (cases "deleteFolder s ?f") auto
  have n: "nodes s' = nodes s" using s' by auto
  have c: "calls s' = calls s @ [DatacenterCall (d_datacenter d)] \<or>
         calls s' = calls s @ [DatacenterCall (d_datacenter d), FindByInventoryPathCall p]"
    using s' by auto
  have frame: "case resourceVSphereFolderDelete s d of
      (e, d', s') \<Rightarrow>
        nodes s' = nodes s \<and>
        (calls s' = calls s @ [DatacenterCall (d_datacenter d)] \<or>
         calls s' = calls s @ [DatacenterCall (d_datacenter d), FindByInventoryPathCall p]) \<and>
        (e = None \<longrightarrow> d' = d\<lparr>d_Id := []\<rparr>) \<and> (e \<noteq> None \<longrightarrow> d' = d)"
    using r n c by (cases e) (simp_all add: resourceVSphereFolderDelete_def)
  have success: "resourceVSphereFolderDelete s d = (None, d\<lparr>d_Id := []\<rparr>, ?s2)"
    if dcr: "fst (getDatacenter s (d_datacenter d)) = Inr dc"
      and nf: "faults s (FindByInventoryPathCall p) = None"
      and leaf: "lookup s (inventory_components p) = Some Folder" for dc
  proof -
    obtain s1 where g: "getDatacenter s (datacenter ?f) = (Inr dc, s1)"
      using dcr by (cases "getDatacenter s (d_datacenter d)") simp
    have nf': "faults s (FindByInventoryPathCall (datacenter ?f @ ''/vm/'' @ path ?f)) = None"
      using nf assms(2) by simp
    have leaf': "lookup s (inventory_components (datacenter ?f @ ''/vm/'' @ path ?f)) = Some Folder"
      using leaf assms(2) by simp
    have "deleteFolder s ?f =
       (case deleteFolder_loop ?f (path ?f)
          \<lparr>fo_ref = inventory_components (datacenter ?f @ ''/vm/'' @ path ?f), fo_InventoryPath = []\<rparr>
          (s\<lparr>calls := calls s @ [DatacenterCall (datacenter ?f),
              FindByInventoryPathCall (datacenter ?f @ ''/vm/'' @ path ?f)]\<rparr>) of
          (e, s3) \<Rightarrow> (e, ?f, s3))"
      by (rule deleteFolder_found [OF g nf' leaf'])
    then have "deleteFolder s ?f = (None, ?f, ?s2)"
      using loop_exit [of ?f] eq assms(2) by simp
    then show ?thesis by (simp add: resourceVSphereFolderDelete_def)
  qed
  show ?thesis using frame success by blast
qed

theorem delete_at_boundary_is_noop_witness:
  "d_existing_path example_unmanaged = strings_TrimRight (d_path example_unmanaged) ''/'' \<and>
   fst (getDatacenter example_inventory (d_datacenter example_unmanaged)) =
     Inr \<lparr>dc_ref = [''dc1''], dc_InventoryPath = ''/dc1''\<rparr> \<and>
   lookup example_inventory (inventory_components ''dc1/vm/a'') = Some Folder \<and>
   resourceVSphereFolderDelete example_inventory example_unmanaged =
     (None, example_unmanaged\<lparr>d_Id := []\<rparr>,
      example_inventory\<lparr>calls := calls example_inventory @
        [DatacenterCall (d_datacenter example_unmanaged), FindByInventoryPathCall ''dc1/vm/a'']\<rparr>)"
proof -
  have h1: "d_existing_path example_unmanaged = strings_TrimRight (d_path example_unmanaged) ''/''"
    by code_simp
  have h2: "''dc1/vm/a'' =
     d_datacenter example_unmanaged @ ''/vm/'' @ strings_TrimRight (d_path example_unmanaged) ''/''"
    by code_simp
  have h3: "fst (getDatacenter example_inventory (d_datacenter example_unmanaged)) =
     Inr \<lparr>dc_ref = [''dc1''], dc_InventoryPath = ''/dc1''\<rparr>"
    by code_simp
  have h4: "faults example_inventory (FindByInventoryPathCall ''dc1/vm/a'') = None"
    by (simp add: example_inventory_def)
  have h5: "lookup example_inventory (inventory_components ''dc1/vm/a'') = Some Folder"
    by code_simp
  show ?thesis
    using h1 h3 h4 h5 delete_at_boundary_is_noop [OF h1 h2, of example_inventory] by blast
qed

subsection \<open>C6: a datacenter without its VM root\<close>

text \<open>
  Claim C6 says that every Create against a datacenter whose VM root cannot be found
  fails with the error naming the base path and creates nothing. Counterexample: the
  datacenter \<open>dc1\<close> has a folder \<open>host\<close> and no \<open>vm\<close>; the path \<open>../host/x\<close> is cleaned to
  \<open>/dc1/host/x\<close>, the walk finds \<open>/dc1/host\<close>, and Create succeeds after creating \<open>x\<close>
  there.
\<close>

theorem create_outside_vm_root_counterexample:
  "lookup example_no_vm [''dc1'', ''vm''] = None \<and>
   (case resourceVSphereFolderCreate example_no_vm example_escaping of
      (e, d, s) \<Rightarrow> (e, nodes s, calls s)) =
     (None,
      [([], Folder), ([''dc1''], Datacenter), ([''dc1'', ''host''], Folder),
       ([''dc1'', ''host'', ''x''], Folder)],
      [DatacenterCall ''dc1'', FindByInventoryPathCall ''/dc1/host/x'',
       FindByInventoryPathCall ''/dc1/host'', CreateFolderCall [''dc1'', ''host''] ''x'',
       DatacenterCall ''dc1'', FindByInventoryPathCall ''dc1/vm/../host/x''])"
  by code_simp

text \<open>
  Claim C6 as amended: when the path consists of plain names, the datacenter resolves,
  the inventory is a tree in which the VM root is absent and the service refuses
  nothing, Create returns the error naming the base path, leaves the resource data and
  the nodes as they are, and issues only lookups: the datacenter and then every prefix of
  the path from the leaf up to the VM root.
\<close>

theorem create_without_vm_root:
  assumes "\<forall>x\<in>set (dc_ref dc @ M). plain_name x"
    and "d_path d = strings_Join M ''/''"
    and "fst (finder_DatacenterOrDefault s (d_datacenter d)) = Inr dc"
    and "dc_ref dc \<noteq> []"
    and "faults s = (\<lambda>c. None)"
    and "tree_closed s"
    and "lookup s (dc_ref dc @ [''vm'']) = None"
  shows "resourceVSphereFolderCreate s d =
     (Some (Error (''vSphere base path /'' @ strings_Join (dc_ref dc @ [''vm'']) ''/'' @ '' not found'')),
      d,
      s\<lparr>calls := calls s @ DatacenterCall (d_datacenter d) #
          map (\<lambda>j. FindByInventoryPathCall
                 (CHR ''/'' # strings_Join (dc_ref dc @ [''vm''] @ take j M) ''/''))
            (rev [0..<Suc (length M)])\<rparr>)"
proof -
  let ?D = "dc_ref dc"
  let ?f = "\<lparr>datacenter = d_datacenter d, existingPath = [],
             path = strings_TrimRight (d_path d) ''/''\<rparr>"
  let ?base = "CHR ''/'' # strings_Join (?D @ [''vm'']) ''/''"
  obtain s1 where dcr: "finder_DatacenterOrDefault s (d_datacenter d) = (Inr dc, s1)"
    using assms(3) by (cases "finder_DatacenterOrDefault s (d_datacenter d)") simp
  have s1: "s1 = s\<lparr>calls := calls s @ [DatacenterCall (d_datacenter d)]\<rparr>"
    and ip: "dc_InventoryPath dc = CHR ''/'' # strings_Join ?D ''/''"
    using DatacenterOrDefault_result [OF dcr] by simp_all
  have plD: "\<forall>x\<in>set ?D. plain_name x" and plM: "\<forall>x\<in>set M. plain_name x"
    using assms(1) by auto
  have pth: "path ?f = strings_Join M ''/''"
    using TrimRight_Join [OF plM] assms(2) by simp
  have base: "filepath_Join [dc_InventoryPath dc, ''vm''] = ?base"
    using base_path [OF plD assms(4)] ip by simp
  have p: "filepath_ToSlash (filepath_Join [?base, strings_TrimRight (d_path d) ''/'']) =
      CHR ''/'' # strings_Join (?D @ [''vm''] @ M) ''/''"
    using full_path [OF assms(1,4)] pth by simp
  have absent: "\<forall>j. j \<le> length M \<longrightarrow> lookup s1 (?D @ [''vm''] @ take j M) = None"
    using absent_below [OF assms(6,7)] s1 by simp
  have fnd: "createFolder_find dc ?base (CHR ''/'' # strings_Join (?D @ [''vm''] @ M) ''/'') [] s1 =
     (Inl (Error (''vSphere base path '' @ filepath_ToSlash ?base @ '' not found'')),
      s1\<lparr>calls := calls s1 @
          map (\<lambda>j. FindByInventoryPathCall (CHR ''/'' # strings_Join (?D @ [''vm''] @ take j M) ''/''))
            (rev [0..<Suc (length M)])\<rparr>)"
  proof (rule find_chain_absent [OF assms(1)])
    show "faults s1 = (\<lambda>c. None)" using assms(5) s1 by simp
    show "\<forall>j. j \<le> length M \<longrightarrow> lookup s1 (?D @ [''vm''] @ take j M) = None" by (rule absent)
    show "dc_InventoryPath dc = CHR ''/'' # strings_Join ?D ''/''" by (rule ip)
    show "?D \<noteq> []" by (rule assms(4))
  qed
  have cf: "createFolder s ?f =
     (case createFolder_find dc ?base (CHR ''/'' # strings_Join (?D @ [''vm''] @ M) ''/'') [] s1 of
        (Inl e, s2) \<Rightarrow> (Some e, ?f, s2)
      | (Inr (r, folders), s2) \<Rightarrow>
          (case as_Folder (Some r) of
             Inl pn \<Rightarrow> (Some pn, ?f, s2)
           | Inr root \<Rightarrow>
               (case createFolder_create (Some root) (rev folders) s2 of (e, s3) \<Rightarrow> (e, ?f, s3))))"
    using dcr by (simp only: createFolder_def folder.simps Let_def base p prod.case sum.case)
  have "createFolder s ?f =
     (Some (Error (''vSphere base path '' @ filepath_ToSlash ?base @ '' not found'')), ?f,
      s1\<lparr>calls := calls s1 @
          map (\<lambda>j. FindByInventoryPathCall (CHR ''/'' # strings_Join (?D @ [''vm''] @ take j M) ''/''))
            (rev [0..<Suc (length M)])\<rparr>)"
    unfolding cf fnd by simp
  then show ?thesis
    by (simp add: resourceVSphereFolderCreate_def s1 filepath_ToSlash_def del: upt_Suc)
qed

theorem create_without_vm_root_witness:
  "(case resourceVSphereFolderCreate example_no_vm example_plain of
      (e, d, s) \<Rightarrow> (e, d, nodes s, calls s)) =
     (Some (Error ''vSphere base path /dc1/vm not found''), example_plain,
      nodes example_no_vm,
      [DatacenterCall ''dc1'', FindByInventoryPathCall ''/dc1/vm/x/y'',
       FindByInventoryPathCall ''/dc1/vm/x'', FindByInventoryPathCall ''/dc1/vm''])"
proof -
  let ?dc = "\<lparr>dc_ref = [''dc1''], dc_InventoryPath = ''/dc1''\<rparr>"
  let ?M = "[''x'', ''y'']"
  have h1: "\<forall>x\<in>set (dc_ref ?dc @ ?M). plain_name x" by (simp add: plain_name_def)
  have h2: "d_path example_plain = strings_Join ?M ''/''" by (simp add: example_plain_def)
  have h3: "fst (finder_DatacenterOrDefault example_no_vm (d_datacenter example_plain)) = Inr ?dc"
    by code_simp
  have h4: "dc_ref ?dc \<noteq> []" by simp
  have h5: "faults example_no_vm = (\<lambda>c. None)" by (simp add: example_no_vm_def)
  have h6: "tree_closed example_no_vm"
    by (simp add: tree_closed_def example_no_vm_def lookup_def)
  have h7: "lookup example_no_vm (dc_ref ?dc @ [''vm'']) = None" by code_simp
  from create_without_vm_root [OF h1 h2 h3 h4 h5 h6 h7]
  show ?thesis
    by (simp add: example_no_vm_def example_plain_def)
qed

subsection \<open>C7: the number of turns of the prune loop\<close>

text \<open>
  Claim C7 says that every turn of the prune loop strictly shortens the current path, so
  that the loop ends after as many turns as there are segments between the leaf and the
  boundary. Counterexample: Create of the path \<open>/a\<close> makes the folder \<open>a\<close> in a VM root
  that also holds \<open>z\<close>, and stores the empty existing path. Delete of that resource
  destroys \<open>a\<close> in its first turn and is left with the current path \<open>/\<close>, which is not
  the boundary and is its own parent; a second turn runs on the VM root and fails on \<open>z\<close>.
  The path has one segment, and the boundary is not reached.
\<close>

theorem prune_past_the_boundary_counterexample:
  "(case resourceVSphereFolderCreate example_siblings example_rooted of
      (e1, d1, s1) \<Rightarrow>
        (case resourceVSphereFolderDelete s1 d1 of
           (e2, d2, s2) \<Rightarrow> (e1, d1, e2, nodes s2, drop (length (calls s1)) (calls s2)))) =
     (None,
      \<lparr>d_datacenter = ''dc1'', d_path = ''/a'', d_existing_path = [], d_Id = ''dc1//a''\<rparr>,
      Some (Error ''Folder / is non-empty and will not be deleted''),
      [([], Folder), ([''dc1''], Datacenter), ([''dc1'', ''vm''], Folder),
       ([''dc1'', ''vm'', ''z''], Folder)],
      [DatacenterCall ''dc1'', FindByInventoryPathCall ''dc1/vm//a'',
       ChildrenCall [''dc1'', ''vm'', ''a''], DestroyCall [''dc1'', ''vm'', ''a''],
       WaitCall [''dc1'', ''vm'', ''a''], FindByInventoryPathCall ''dc1/vm//'',
       ChildrenCall [''dc1'', ''vm'']]) \<and>
   (if path_Dir ''/'' = ''.'' then [] else path_Dir ''/'') = ''/''"
  by code_simp

text \<open>
  Claim C7 as amended: a turn of the loop that finds its folder empty replaces the
  current path by its parent, which is strictly shorter unless the current path is empty
  or the single slash. When the boundary is a prefix of the path by whole plain names
  (\<open>P\<close> the boundary, \<open>M\<close> the segments below it), every folder below the boundary is an
  empty folder when it is reached and the service refuses nothing, the current path loses
  one segment in each turn and the loop ends at the boundary after exactly as many turns
  as \<open>M\<close> has segments.
\<close>

theorem prune_iterations:
  assumes "\<forall>x\<in>set (P @ M). plain_name x"
    and "existingPath f = strings_Join P ''/''"
    and "path f = strings_Join (P @ M) ''/''"
    and "fst (getDatacenter s (datacenter f)) = Inr dc"
    and "faults s = (\<lambda>c. None)"
    and "B = inventory_components (datacenter f) @ [''vm'']"
    and "\<forall>j. j \<le> length M \<longrightarrow> lookup s (B @ P @ take j M) = Some Folder"
    and "\<forall>(q, k)\<in>set (nodes s). \<forall>j. 0 < j \<and> j \<le> length M \<and> q \<noteq> [] \<and> butlast q = B @ P @ take j M
           \<longrightarrow> j < length M \<and> q = B @ P @ take (Suc j) M"
    and "cs = concat (map (\<lambda>j.
           [ChildrenCall (B @ P @ take j M), DestroyCall (B @ P @ take j M),
            WaitCall (B @ P @ take j M),
            FindByInventoryPathCall (datacenter f @ ''/vm/'' @ strings_Join (P @ take (j - 1) M) ''/'')])
           (rev [1..<Suc (length M)]))"
  shows "deleteFolder s f =
       (None, f,
        s\<lparr>nodes := foldl (\<lambda>ns r. filter (\<lambda>(q, k). take (length r) q \<noteq> r) ns) (nodes s)
                   (map (\<lambda>j. B @ P @ take j M) (rev [1..<Suc (length M)])),
          calls := calls s @
            [DatacenterCall (datacenter f),
             FindByInventoryPathCall (datacenter f @ ''/vm/'' @ strings_Join (P @ M) ''/'')] @ cs\<rparr>) \<and>
     length (filter (\<lambda>c. \<exists>r. c = ChildrenCall r) cs) = length M \<and>
     (\<forall>j. 0 < j \<and> j \<le> length M \<longrightarrow>
        length (strings_Join (P @ take (j - 1) M) ''/'') < length (strings_Join (P @ take j M) ''/'')) \<and>
     (\<forall>p. p \<noteq> [] \<and> p \<noteq> ''/'' \<longrightarrow>
        length (if path_Dir p = ''.'' then [] else path_Dir p) < length p)"
proof -
  let ?s2 = "s\<lparr>calls := calls s @ [DatacenterCall (datacenter f),
            FindByInventoryPathCall (datacenter f @ ''/vm/'' @ path f)]\<rparr>"
  let ?fo = "\<lparr>fo_ref = inventory_components (datacenter f @ ''/vm/'' @ path f), fo_InventoryPath = []\<rparr>"
  obtain s1 where g: "getDatacenter s (datacenter f) = (Inr dc, s1)"
    using assms(4) by (cases "getDatacenter s (datacenter f)") simp
  have comps: "inventory_components (datacenter f @ ''/vm/'' @ path f) = B @ P @ M"
    using leaf_components [OF assms(1), of "datacenter f"] assms(3,6) by simp
  have leaf: "lookup s (B @ P @ M) = Some Folder"
    using assms(7) [rule_format, of "length M"] by simp
  have start: "deleteFolder s f =
     (case deleteFolder_loop f (strings_Join (P @ M) ''/'') ?fo ?s2 of (e, s3) \<Rightarrow> (e, f, s3))"
    using deleteFolder_start [OF g assms(5)] leaf comps assms(3) by simp
  have chain: "deleteFolder_loop f (strings_Join (P @ M) ''/'') ?fo ?s2 =
     (None,
      ?s2\<lparr>nodes := foldl (\<lambda>ns r. filter (\<lambda>(q, k). take (length r) q \<noteq> r) ns) (nodes ?s2)
                   (map (\<lambda>j. B @ P @ take j M) (rev [1..<Suc (length M)])),
        calls := calls ?s2 @ concat (map (\<lambda>j.
           [ChildrenCall (B @ P @ take j M), DestroyCall (B @ P @ take j M),
            WaitCall (B @ P @ take j M),
            FindByInventoryPathCall (datacenter f @ ''/vm/'' @ strings_Join (P @ take (j - 1) M) ''/'')])
           (rev [1..<Suc (length M)]))\<rparr>)"
  proof (rule prune_chain [OF assms(1,2,6)])
    show "faults ?s2 = (\<lambda>c. None)" using assms(5) by simp
    show "fo_ref ?fo = B @ P @ M" using comps by simp
    show "\<forall>j. 0 < j \<and> j \<le> length M \<longrightarrow> lookup ?s2 (B @ P @ take j M) = Some Folder"
      using assms(7) by simp
    show "\<forall>(q, k)\<in>set (nodes ?s2). \<forall>j. 0 < j \<and> j \<le> length M \<and> q \<noteq> [] \<and>
        butlast q = B @ P @ take j M \<longrightarrow> j < length M \<and> q = B @ P @ take (Suc j) M"
      using assms(8) by simp
    show "lookup ?s2 (B @ P) = None \<or> lookup ?s2 (B @ P) = Some Folder"
      using assms(7) [rule_format, of 0] by simp
  qed
  have res: "deleteFolder s f =
       (None, f,
        s\<lparr>nodes := foldl (\<lambda>ns r. filter (\<lambda>(q, k). take (length r) q \<noteq> r) ns) (nodes s)
                   (map (\<lambda>j. B @ P @ take j M) (rev [1..<Suc (length M)])),
          calls := calls s @
            [DatacenterCall (datacenter f),
             FindByInventoryPathCall (datacenter f @ ''/vm/'' @ strings_Join (P @ M) ''/'')] @ cs\<rparr>)"
    unfolding start chain using assms(3,9) by simp
  have cnt: "length (filter (\<lambda>c. \<exists>r. c = ChildrenCall r) cs) = length M"
    unfolding assms(9) count_iterations by (simp del: upt_Suc)
  have shorter: "\<forall>j. 0 < j \<and> j \<le> length M \<longrightarrow>
        length (strings_Join (P @ take (j - 1) M) ''/'') < length (strings_Join (P @ take j M) ''/'')"
    using Join_take_longer [OF assms(1)] by blast
  have parent: "\<forall>p. p \<noteq> [] \<and> p \<noteq> ''/'' \<longrightarrow>
        length (if path_Dir p = ''.'' then [] else path_Dir p) < length p"
    using parent_shorter by blast
  show ?thesis using res cnt shorter parent by blast
qed

theorem prune_iterations_witness:
  "(case deleteFolder example_inventory example_whole of (e, f, s) \<Rightarrow> (e, f, nodes s, calls s)) =
     (None, example_whole,
      [([], Folder), ([''dc1''], Datacenter), ([''dc1'', ''vm''], Folder)],
      [DatacenterCall ''dc1'', FindByInventoryPathCall ''dc1/vm/a'',
       ChildrenCall [''dc1'', ''vm'', ''a''], DestroyCall [''dc1'', ''vm'', ''a''],
       WaitCall [''dc1'', ''vm'', ''a''], FindByInventoryPathCall ''dc1/vm/''])"
proof -
  let ?P = "[] :: string list" and ?M = "[''a'']" and ?B = "[''dc1'', ''vm'']"
  have cases_j: "\<And>j::nat. j \<le> length ?M \<Longrightarrow> j = 0 \<or> j = 1" by auto
  have h1: "\<forall>x\<in>set (?P @ ?M). plain_name x" by (simp add: plain_name_def)
  have h2: "existingPath example_whole = strings_Join ?P ''/''" by (simp add: example_whole_def)
  have h3: "path example_whole = strings_Join (?P @ ?M) ''/''" by (simp add: example_whole_def)
  have h4: "fst (getDatacenter example_inventory (datacenter example_whole)) =
      Inr \<lparr>dc_ref = [''dc1''], dc_InventoryPath = ''/dc1''\<rparr>" by code_simp
  have h5: "faults example_inventory = (\<lambda>c. None)" by (simp add: example_inventory_def)
  have h6: "?B = inventory_components (datacenter example_whole) @ [''vm'']" by code_simp
  have l0: "lookup example_inventory (?B @ ?P) = Some Folder" by code_simp
  have l1: "lookup example_inventory (?B @ ?P @ ?M) = Some Folder" by code_simp
  have h7: "\<forall>j. j \<le> length ?M \<longrightarrow> lookup example_inventory (?B @ ?P @ take j ?M) = Some Folder"
  proof (intro allI impI)
    fix j :: nat assume "j \<le> length ?M"
    from cases_j [OF this] show "lookup example_inventory (?B @ ?P @ take j ?M) = Some Folder"
    proof
      assume "j = 0" then show ?thesis using l0 by simp
    next
      assume "j = 1" then show ?thesis using l1 by simp
    qed
  qed
  have h8: "\<forall>(q, k)\<in>set (nodes example_inventory). \<forall>j. 0 < j \<and> j \<le> length ?M \<and> q \<noteq> [] \<and>
        butlast q = ?B @ ?P @ take j ?M \<longrightarrow> j < length ?M \<and> q = ?B @ ?P @ take (Suc j) ?M"
    by (auto simp: example_inventory_def)
  from prune_iterations [OF h1 h2 h3 h4 h5 h6 h7 h8 refl]
  show ?thesis
    by (simp add: example_inventory_def example_whole_def)
qed

subsection \<open>C8: the identity set by Create\<close>

text \<open>
  Claim C8 says that after a successful Create with an empty datacenter field the
  identity is the name of the resolved default datacenter, a slash and the path.
  \<open>createFolder\<close> resolves the default datacenter, but Create formats the identity, and
  Read the path it looks up, from the datacenter field as it was configured. In the
  example inventory the default datacenter is \<open>dc1\<close> and Create of \<open>dev/team-a\<close> creates
  both folders below its VM root; the read-back then looks \<open>/vm/dev/team-a\<close> up, finds
  nothing and clears the identity, so that Create succeeds with an empty identity instead
  of \<open>dc1/dev/team-a\<close>.
\<close>

theorem create_default_identity_is_cleared:
  "fst (finder_DatacenterOrDefault example_inventory []) =
     Inr \<lparr>dc_ref = [''dc1''], dc_InventoryPath = ''/dc1''\<rparr> \<and>
   (case resourceVSphereFolderCreate example_inventory example_default of
      (e, d, s) \<Rightarrow> (e, d, nodes s, calls s)) =
     (None,
      \<lparr>d_datacenter = [], d_path = ''dev/team-a'', d_existing_path = [], d_Id = []\<rparr>,
      [([], Folder), ([''dc1''], Datacenter), ([''dc1'', ''vm''], Folder),
       ([''dc1'', ''vm'', ''a''], Folder), ([''dc1'', ''vm'', ''dev''], Folder),
       ([''dc1'', ''vm'', ''dev'', ''team-a''], Folder)],
      [DatacenterCall [], FindByInventoryPathCall ''/dc1/vm/dev/team-a'',
       FindByInventoryPathCall ''/dc1/vm/dev'', FindByInventoryPathCall ''/dc1/vm'',
       CreateFolderCall [''dc1'', ''vm''] ''dev'',
       CreateFolderCall [''dc1'', ''vm'', ''dev''] ''team-a'',
       DatacenterCall [], FindByInventoryPathCall ''/vm/dev/team-a''])"
  by code_simp

subsection \<open>C9: a failing creation\<close>

text \<open>
  Claim C9 says that when a create-child-folder call fails, Create returns an error that
  wraps the service error and names the parent folder, and rolls nothing back. In
  \<open>createFolder\<close> the failed call's nil folder is assigned to \<open>root\<close> before the message
  reads \<open>root.InventoryPath\<close>: with \<open>a\<close> present and the creation of \<open>c\<close> refused, Create
  panics on the nil dereference; the folder \<open>b\<close> created before stays.
\<close>

theorem create_failure_panics:
  "(case resourceVSphereFolderCreate example_refusing example_resource of
      (e, d, s) \<Rightarrow> (e, d, nodes s, calls s)) =
     (Some (Panic NilDereference),
      example_resource,
      [([], Folder), ([''dc1''], Datacenter), ([''dc1'', ''vm''], Folder),
       ([''dc1'', ''vm'', ''a''], Folder), ([''dc1'', ''vm'', ''a'', ''b''], Folder)],
      [DatacenterCall ''dc1'', FindByInventoryPathCall ''/dc1/vm/a/b/c'',
       FindByInventoryPathCall ''/dc1/vm/a/b'', FindByInventoryPathCall ''/dc1/vm/a'',
       CreateFolderCall [''dc1'', ''vm'', ''a''] ''b'',
       CreateFolderCall [''dc1'', ''vm'', ''a'', ''b''] ''c''])"
  by code_simp

subsection \<open>C10: Delete of a folder that is gone\<close>

text \<open>
  Claim C10: when the leaf folder is no longer in the inventory, the first lookup of
  \<open>deleteFolder\<close> returns the nil reference without an error and the type assertion on it
  panics. For a Delete that reaches that lookup (the datacenter resolves) and whose lookup
  the service answers, the lookup yields nil and Delete ends in the panic of a conversion
  of the nil interface, having issued the two lookups and nothing else.
\<close>

theorem delete_missing_leaf_panics:
  assumes "fst (getDatacenter s (d_datacenter d)) = Inr dc"
    and "p = d_datacenter d @ ''/vm/'' @ strings_TrimRight (d_path d) ''/''"
    and "faults s (FindByInventoryPathCall p) = None"
    and "lookup s (inventory_components p) = None"
  shows "fst (FindByInventoryPath (snd (getDatacenter s (d_datacenter d))) p) = Inr None \<and>
     resourceVSphereFolderDelete s d =
       (Some (Panic NilInterfaceConversion), d,
        s\<lparr>calls := calls s @ [DatacenterCall (d_datacenter d), FindByInventoryPathCall p]\<rparr>)"
proof -
  obtain s1 where g: "getDatacenter s (d_datacenter d) = (Inr dc, s1)"
    using assms(1) by (cases "getDatacenter s (d_datacenter d)") simp
  have s1: "s1 = s\<lparr>calls := calls s @ [DatacenterCall (d_datacenter d)]\<rparr>"
    using DatacenterOrDefault_result(1) [of s "d_datacenter d" dc s1] g
    by (simp add: getDatacenter_eq)
  have fnd: "FindByInventoryPath s1 p =
     (Inr None, s\<lparr>calls := calls s @ [DatacenterCall (d_datacenter d), FindByInventoryPathCall p]\<rparr>)"
    using Find_result [of s1 p] assms(3,4) s1 by simp
  show ?thesis
    using g fnd assms(2)
    by (simp add: resourceVSphereFolderDelete_def deleteFolder_def as_Folder_def)
qed

theorem delete_missing_leaf_panics_witness:
  "fst (getDatacenter example_inventory (d_datacenter example_stale)) =
     Inr \<lparr>dc_ref = [''dc1''], dc_InventoryPath = ''/dc1''\<rparr> \<and>
   lookup example_inventory (inventory_components ''dc1/vm/a/b/c'') = None \<and>
   resourceVSphereFolderDelete example_inventory example_stale =
     (Some (Panic NilInterfaceConversion), example_stale,
      example_inventory\<lparr>calls := calls example_inventory @
        [DatacenterCall (d_datacenter example_stale), FindByInventoryPathCall ''dc1/vm/a/b/c'']\<rparr>)"
proof -
  have h1: "fst (getDatacenter example_inventory (d_datacenter example_stale)) =
     Inr \<lparr>dc_ref = [''dc1''], dc_InventoryPath = ''/dc1''\<rparr>"
    by code_simp
  have h2: "''dc1/vm/a/b/c'' =
     d_datacenter example_stale @ ''/vm/'' @ strings_TrimRight (d_path example_stale) ''/''"
    by code_simp
  have h3: "faults example_inventory (FindByInventoryPathCall ''dc1/vm/a/b/c'') = None"
    by (simp add: example_inventory_def)
  have h4: "lookup example_inventory (inventory_components ''dc1/vm/a/b/c'') = None"
    by code_simp
  show ?thesis
    using h1 h4 delete_missing_leaf_panics [OF h1 h2 h3 h4] by blast
qed

end
